theory Spec2Isabelle
  imports Main "HOL-Library.Char_ord" "HOL-Library.List_Lexorder" "HOL-Library.Multiset"
begin

section \<open>cmdg: the interactive session engine\<close>

text \<open>
  A shallow embedding of \<^verbatim>\<open>cmdg.go\<close> (the message list, the fetch coordinator, the
  detail view, the editor mode loop, the MIME helpers) and of the file dialog's
  \<^verbatim>\<open>readDir\<close>. Go's \<^verbatim>\<open>int\<close> is modelled by \<open>int\<close>: every integer of the program is
  a cursor, a counter or a line number bounded by the length of a slice, so no
  operation below can leave the 64-bit range. A Go string is a byte sequence, here a
  \<open>string\<close> (a list of 8-bit characters).
\<close>

subsection \<open>Errors\<close>

text \<open>
  \<open>Fatal\<close>: \<^verbatim>\<open>log.Fatalf\<close> was called, the process has exited.
  \<open>Panic\<close>: a run-time panic (index out of range, nil dereference); no handler of the
  program recovers from one.
\<close>

datatype error = Fatal | Panic

subsection \<open>Messages and the remote service\<close>

text \<open>
  The fields of \<^verbatim>\<open>gmail.Message\<close> the program reads. \<open>PayloadBody\<close> is
  \<^verbatim>\<open>Payload.Body.Data\<close>, \<open>Parts\<close> the pairs (\<^verbatim>\<open>MimeType\<close>, \<^verbatim>\<open>Body.Data\<close>) of
  \<^verbatim>\<open>Payload.Parts\<close>.
\<close>

record message =
  MsgId :: string
  LabelIds :: "string list"
  Headers :: "(string \<times> string) list"
  Snippet :: string
  PayloadBody :: string
  Parts :: "(string \<times> string) list"

text \<open>
  What the remote service answers at the moment of one call of \<^verbatim>\<open>list\<close>:
  \<^verbatim>\<open>Users.Messages.List(...).Do()\<close> gives an error or the ids of the listed messages,
  \<^verbatim>\<open>Users.Messages.Get(email, id)...Do()\<close> an error or the full message.
\<close>

record service =
  Messages_List :: "string + string list"
  Messages_Get :: "string \<Rightarrow> string + message"

subsection \<open>The fetch coordinator: \<^verbatim>\<open>parallel\<close>\<close>

text \<open>
  \<^verbatim>\<open>add\<close> makes an unbuffered channel, starts the worker goroutine on it and appends the
  channel to \<^verbatim>\<open>p.chans\<close>. A channel has one sender, its worker, which sends at most
  once; so a channel is modelled by what its worker does: \<open>Sends f\<close> when it sends
  the apply action \<open>f\<close> (a closure over the caller's variables, here a function on
  the state \<open>'s\<close> of those variables), \<open>Exits\<close> when it calls \<^verbatim>\<open>log.Fatalf\<close> instead.
\<close>

datatype 's chan = Sends "'s \<Rightarrow> 's" | Exits

record 's parallel =
  chans :: "'s chan list"

definition parallel_empty :: "'s parallel" where
  "parallel_empty = \<lparr>chans = []\<rparr>"

definition add :: "'s parallel \<Rightarrow> 's chan \<Rightarrow> 's parallel" where
  "add p c = p\<lparr>chans := chans p @ [c]\<rparr>"

text \<open>
  \<^verbatim>\<open>for _, ch := range p.chans { f := <-ch; f() }\<close>: the channels are read in the order
  they were added. A receive from the channel of a worker that exits never returns:
  the process is gone.
\<close>

fun run_chans :: "'s chan list \<Rightarrow> 's \<Rightarrow> error + 's" where
  "run_chans [] s = Inr s"
| "run_chans (Sends f # cs) s = run_chans cs (f s)"
| "run_chans (Exits # cs) s = Inl Fatal"

definition run :: "'s parallel \<Rightarrow> 's \<Rightarrow> error + 's" where
  "run p s = run_chans (chans p) s"

subsection \<open>The list model: \<^verbatim>\<open>messageList\<close>\<close>

text \<open>
  \<open>marked\<close> is a Go \<^verbatim>\<open>map[string]bool\<close>: a key may be absent, or present with either
  value. Reading \<^verbatim>\<open>marked[id]\<close> gives \<^verbatim>\<open>false\<close> for an absent key.
\<close>

record messageList =
  current :: int
  marked :: "string \<rightharpoonup> bool"
  showDetails :: bool
  messages :: "message list"

definition isMarked :: "(string \<rightharpoonup> bool) \<Rightarrow> string \<Rightarrow> bool" where
  "isMarked m k = (case m k of None \<Rightarrow> False | Some b \<Rightarrow> b)"

definition list_worker :: "service \<Rightarrow> string \<Rightarrow> messageList chan" where
  "list_worker g mid =
     (case Messages_Get g mid of
        Inl err \<Rightarrow> Exits
      | Inr mres \<Rightarrow> Sends (\<lambda>ret. ret\<lparr>messages := messages ret @ [mres]\<rparr>))"

definition list :: "service \<Rightarrow> error + messageList" where
  "list g =
     (case Messages_List g of
        Inl err \<Rightarrow> Inl Fatal
      | Inr res \<Rightarrow>
          run (foldl (\<lambda>p mid. add p (list_worker g mid)) parallel_empty res)
            \<lparr>current = 0, marked = Map.empty, showDetails = False, messages = []\<rparr>)"

definition messageList_next :: "messageList \<Rightarrow> messageList" where
  "messageList_next l =
     (if current l < int (length (messages l)) - 1 then l\<lparr>current := current l + 1\<rparr> else l)"

definition messageList_prev :: "messageList \<Rightarrow> messageList" where
  "messageList_prev l = (if current l > 0 then l\<lparr>current := current l - 1\<rparr> else l)"

definition fixCurrent :: "messageList \<Rightarrow> messageList" where
  "fixCurrent l =
     (let l1 = (if current l \<ge> int (length (messages l))
                then l\<lparr>current := int (length (messages l)) - 1\<rparr> else l)
      in if current l1 < 0 then l1\<lparr>current := 0\<rparr> else l1)"

subsection \<open>The session's global state\<close>

text \<open>
  The globals the handlers share: \<^verbatim>\<open>messages\<close> (a pointer, nil until the first
  refresh), \<^verbatim>\<open>openMessageScrollY\<close>, and the text last written to the status line
  \<^verbatim>\<open>bottomView\<close>. A status text is kept as the format and its arguments:
  \<open>StatusFailed ok verb fail errstr\<close> is \<^verbatim>\<open>"%d %s OK, %d failed: %s"\<close>,
  \<open>StatusOK verb ok\<close> is \<^verbatim>\<open>"OK, %s %d messages"\<close>, \<open>StatusWait verb\<close> is
  \<^verbatim>\<open>"%s emails, please wait..."\<close>. An error string
  \<^verbatim>\<open>fmt.Sprintf("Error %s %q: %v", verb, id, err)\<close> is kept as \<open>ErrStr verb id err\<close>,
  the empty string as \<open>NoErrStr\<close>.
\<close>

datatype errstr = NoErrStr | ErrStr string string string

datatype status_text =
    StatusNone
  | StatusWait string
  | StatusFailed int string int errstr
  | StatusOK string int

record session =
  g_messages :: "messageList option"
  openMessageScrollY :: int
  bottomView :: status_text

definition init_session :: session where
  "init_session = \<lparr>g_messages = None, openMessageScrollY = 0, bottomView = StatusNone\<rparr>"

text \<open>
  \<^verbatim>\<open>refreshMessages\<close>. The map of marks is never nil (it comes from \<^verbatim>\<open>make\<close> here or
  in \<^verbatim>\<open>list\<close>), so the branch \<^verbatim>\<open>if marked != nil\<close> is always taken. The final
  \<^verbatim>\<open>messages.draw()\<close> only prints.
\<close>

definition refreshMessages :: "service \<Rightarrow> session \<Rightarrow> error + session" where
  "refreshMessages g st =
     (let cm = (case g_messages st of
                  None \<Rightarrow> (0, Map.empty)
                | Some l \<Rightarrow> (current l, marked l))
      in case list g of
           Inl e \<Rightarrow> Inl e
         | Inr l \<Rightarrow>
             Inr (st\<lparr>g_messages :=
               Some (fixCurrent (l\<lparr>current := fst cm, marked := snd cm\<rparr>))\<rparr>))"

text \<open>
  The key handlers \<^verbatim>\<open>next\<close> and \<^verbatim>\<open>prev\<close> (\<open>cmd_next\<close> and \<open>cmd_prev\<close> here, the methods
  of the list being \<open>messageList_next\<close> and \<open>messageList_prev\<close>): a nil \<^verbatim>\<open>messages\<close> is
  dereferenced. Their \<^verbatim>\<open>messages.draw()\<close> only prints.
\<close>

definition cmd_next :: "session \<Rightarrow> error + session" where
  "cmd_next st =
     (case g_messages st of
        None \<Rightarrow> Inl Panic
      | Some l \<Rightarrow> Inr (st\<lparr>g_messages := Some (messageList_next l)\<rparr>))"

definition cmd_prev :: "session \<Rightarrow> error + session" where
  "cmd_prev st =
     (case g_messages st of
        None \<Rightarrow> Inl Panic
      | Some l \<Rightarrow> Inr (st\<lparr>g_messages := Some (messageList_prev l)\<rparr>))"

text \<open>A sequence of list operations, stopped by the first fatal error or panic.\<close>

datatype list_op = Refresh service | MoveNext | MovePrevious

fun apply_list_op :: "list_op \<Rightarrow> session \<Rightarrow> error + session" where
  "apply_list_op (Refresh g) st = refreshMessages g st"
| "apply_list_op MoveNext st = cmd_next st"
| "apply_list_op MovePrevious st = cmd_prev st"

fun run_list_ops :: "list_op list \<Rightarrow> session \<Rightarrow> error + session" where
  "run_list_ops [] st = Inr st"
| "run_list_ops (x # xs) st =
     (case apply_list_op x st of Inl e \<Rightarrow> Inl e | Inr st' \<Rightarrow> run_list_ops xs st')"

text \<open>The cursor invariant of the list model.\<close>

definition cursor_ok :: "messageList \<Rightarrow> bool" where
  "cursor_ok l =
     (if messages l = [] then current l = 0
      else 0 \<le> current l \<and> current l < int (length (messages l)))"

definition session_ok :: "session \<Rightarrow> bool" where
  "session_ok st = (case g_messages st of None \<Rightarrow> True | Some l \<Rightarrow> cursor_ok l)"

subsection \<open>Marks\<close>

text \<open>
  \<^verbatim>\<open>messages.marked[id] = !messages.marked[id]\<close>, the statement of both mark handlers.
\<close>

definition toggleMark :: "string \<Rightarrow> (string \<rightharpoonup> bool) \<Rightarrow> (string \<rightharpoonup> bool)" where
  "toggleMark k m = m(k \<mapsto> \<not> isMarked m k)"

text \<open>
  \<^verbatim>\<open>messagesCmdMark\<close>: the id is read at \<^verbatim>\<open>messages.messages[messages.current]\<close>, which
  panics on an index out of range; then the handler \<^verbatim>\<open>next\<close> moves the cursor.
\<close>

definition current_id :: "messageList \<Rightarrow> error + string" where
  "current_id l =
     (if 0 \<le> current l \<and> current l < int (length (messages l))
      then Inr (MsgId (messages l ! nat (current l))) else Inl Panic)"

definition messagesCmdMark :: "session \<Rightarrow> error + session" where
  "messagesCmdMark st =
     (case g_messages st of
        None \<Rightarrow> Inl Panic
      | Some l \<Rightarrow>
          (case current_id l of
             Inl e \<Rightarrow> Inl e
           | Inr k \<Rightarrow>
               cmd_next (st\<lparr>g_messages := Some (l\<lparr>marked := toggleMark k (marked l)\<rparr>)\<rparr>)))"

subsection \<open>MIME helpers: \<^verbatim>\<open>mimeEncode\<close> and \<^verbatim>\<open>mimeDecode\<close>\<close>

text \<open>
  \<^verbatim>\<open>base64.StdEncoding\<close> of Go's standard library (RFC 4648, with padding), which
  \<^verbatim>\<open>mimeEncode\<close> and \<^verbatim>\<open>mimeDecode\<close> call. A byte is a \<open>char\<close>, read as a number
  by \<open>of_char\<close>; \<^verbatim>\<open>x << 16 | y << 8 | z\<close> on bytes is \<open>x * 65536 + y * 256 + z\<close>,
  \<^verbatim>\<open>v >> k\<close> is \<open>v div 2 ^ k\<close>, \<^verbatim>\<open>& 0x3F\<close> is \<open>mod 64\<close> and the conversion
  \<^verbatim>\<open>byte(v)\<close> is \<open>char_of v\<close>, which keeps the low eight bits.
\<close>

datatype b64_error = CorruptInputError

definition encodeStd :: string where
  "encodeStd = ''ABCDEFGHIJKLMNOPQRSTUVWXYZabcdefghijklmnopqrstuvwxyz0123456789+/''"

definition enc :: "nat \<Rightarrow> char" where
  "enc i = encodeStd ! (i mod 64)"

fun index_of :: "'a list \<Rightarrow> 'a \<Rightarrow> nat option" where
  "index_of [] x = None"
| "index_of (y # ys) x = (if x = y then Some 0 else map_option Suc (index_of ys x))"

text \<open>
  The decoder's table \<^verbatim>\<open>decodeMap\<close> sends a byte of the alphabet to its position and
  every other byte to \<^verbatim>\<open>0xFF\<close>, here \<open>None\<close>.
\<close>

definition decodeMap :: "char \<Rightarrow> nat option" where
  "decodeMap c = index_of encodeStd c"

definition padChar :: char where
  "padChar = CHR ''=''"

text \<open>
  \<^verbatim>\<open>EncodeToString\<close>: three bytes give four characters; a rest of two or one bytes
  gives three or two characters and padding.
\<close>

fun EncodeToString :: "string \<Rightarrow> string" where
  "EncodeToString (a # b # c # rest) =
     (let val = of_char a * 65536 + of_char b * 256 + of_char c
      in enc (val div 262144) # enc (val div 4096) # enc (val div 64) # enc val #
         EncodeToString rest)"
| "EncodeToString [a, b] =
     (let val = of_char a * 65536 + of_char b * 256
      in [enc (val div 262144), enc (val div 4096), enc (val div 64), padChar])"
| "EncodeToString [a] =
     (let val = of_char a * 65536
      in [enc (val div 262144), enc (val div 4096), padChar, padChar])"
| "EncodeToString [] = []"

text \<open>
  \<^verbatim>\<open>DecodeString\<close> drops carriage returns and line feeds, then decodes quanta of four
  characters; padding is accepted only in the last quantum, in its third and fourth
  place or its fourth place, with nothing after it. With an error Go also returns the
  bytes decoded so far; every caller here drops them, and so does the model.
\<close>

definition quantum_val :: "nat \<Rightarrow> nat \<Rightarrow> nat \<Rightarrow> nat \<Rightarrow> nat" where
  "quantum_val d0 d1 d2 d3 = d0 * 262144 + d1 * 4096 + d2 * 64 + d3"

fun decode :: "string \<Rightarrow> b64_error + string" where
  "decode [] = Inr []"
| "decode (c0 # c1 # c2 # c3 # rest) =
     (case (decodeMap c0, decodeMap c1) of
        (Some d0, Some d1) \<Rightarrow>
          if c2 = padChar then
            (if c3 = padChar \<and> rest = []
             then Inr [char_of (quantum_val d0 d1 0 0 div 65536)]
             else Inl CorruptInputError)
          else
            (case decodeMap c2 of
               None \<Rightarrow> Inl CorruptInputError
             | Some d2 \<Rightarrow>
                 if c3 = padChar then
                   (if rest = []
                    then Inr [char_of (quantum_val d0 d1 d2 0 div 65536),
                              char_of (quantum_val d0 d1 d2 0 div 256)]
                    else Inl CorruptInputError)
                 else
                   (case decodeMap c3 of
                      None \<Rightarrow> Inl CorruptInputError
                    | Some d3 \<Rightarrow>
                        (case decode rest of
                           Inl e \<Rightarrow> Inl e
                         | Inr bs \<Rightarrow>
                             Inr (char_of (quantum_val d0 d1 d2 d3 div 65536) #
                                  char_of (quantum_val d0 d1 d2 d3 div 256) #
                                  char_of (quantum_val d0 d1 d2 d3) # bs))))
      | _ \<Rightarrow> Inl CorruptInputError)"
| "decode _ = Inl CorruptInputError"

definition DecodeString :: "string \<Rightarrow> b64_error + string" where
  "DecodeString s = decode (filter (\<lambda>c. c \<noteq> CHR 0x0A \<and> c \<noteq> CHR 0x0D) s)"

text \<open>
  \<^verbatim>\<open>strings.Replace(s, old, new, -1)\<close> for one-byte \<^verbatim>\<open>old\<close> and \<^verbatim>\<open>new\<close>, the only
  way the program calls it: every occurrence of the byte is replaced.
\<close>

definition Replace :: "string \<Rightarrow> char \<Rightarrow> char \<Rightarrow> string" where
  "Replace s old new = map (\<lambda>c. if c = old then new else c) s"

definition mimeDecode :: "string \<Rightarrow> b64_error + string" where
  "mimeDecode s = DecodeString (Replace (Replace s (CHR ''-'') (CHR ''+'')) (CHR ''_'') (CHR ''/''))"

definition mimeEncode :: "string \<Rightarrow> string" where
  "mimeEncode s = Replace (Replace (EncodeToString s) (CHR ''+'') (CHR ''-'')) (CHR ''/'') (CHR ''_'')"

subsection \<open>The detail view\<close>

text \<open>\<^verbatim>\<open>strings.Split(s, sep)\<close> for a one-byte separator: never the empty slice.\<close>

fun Split :: "string \<Rightarrow> char \<Rightarrow> string list" where
  "Split [] sep = [[]]"
| "Split (c # cs) sep =
     (if c = sep then [] # Split cs sep
      else (case Split cs sep of [] \<Rightarrow> [[c]] | l # ls \<Rightarrow> (c # l) # ls))"

text \<open>
  \<^verbatim>\<open>getBody\<close>. The text of the decoding error that \<^verbatim>\<open>%v\<close> prints ends with the
  offset of the bad byte, which is left out here; it has no line break.
\<close>

definition content_error :: "b64_error \<Rightarrow> string" where
  "content_error e = ''TODO Content error: illegal base64 data''"

definition getBody :: "message \<Rightarrow> string" where
  "getBody m =
     (if length (Parts m) = 0 then
        (case mimeDecode (PayloadBody m) of
           Inl err \<Rightarrow> content_error err
         | Inr data \<Rightarrow> data)
      else
        (case find (\<lambda>p. fst p = ''text/plain'') (Parts m) of
           None \<Rightarrow> ''TODO Unknown data''
         | Some p \<Rightarrow>
             (case mimeDecode (snd p) of
                Inl err \<Rightarrow> content_error err
              | Inr data \<Rightarrow> data)))"

text \<open>
  \<^verbatim>\<open>openMessageDraw\<close>, with the height \<open>h\<close> that \<^verbatim>\<open>openMessageView.Size()\<close> returns.
  Two expressions can panic: \<^verbatim>\<open>messages.messages[messages.current]\<close> and the slice
  \<^verbatim>\<open>bodyLines[openMessageScrollY:]\<close>, whose low bound must not exceed the length. The
  goroutine that removes the unread label and the printing change no state of the
  session.
\<close>

definition maxScroll :: "int \<Rightarrow> string list \<Rightarrow> int" where
  "maxScroll h bodyLines = int (length bodyLines) - h + 10"

definition clampScroll :: "int \<Rightarrow> string list \<Rightarrow> int \<Rightarrow> int" where
  "clampScroll h bodyLines y =
     (let y1 = (if y > maxScroll h bodyLines then maxScroll h bodyLines else y)
      in if y1 < 0 then 0 else y1)"

definition openMessageDraw :: "int \<Rightarrow> session \<Rightarrow> error + session" where
  "openMessageDraw h st =
     (case g_messages st of
        None \<Rightarrow> Inl Panic
      | Some l \<Rightarrow>
          if 0 \<le> current l \<and> current l < int (length (messages l)) then
            (let openMessage = messages l ! nat (current l);
                 bodyLines = Split (getBody openMessage) (CHR 0x0A);
                 y = clampScroll h bodyLines (openMessageScrollY st)
             in if y > int (length bodyLines) then Inl Panic
                else Inr (st\<lparr>openMessageScrollY := y\<rparr>))
          else Inl Panic)"

definition messagesCmdOpen :: "int \<Rightarrow> session \<Rightarrow> error + session" where
  "messagesCmdOpen h st = openMessageDraw h (st\<lparr>openMessageScrollY := 0\<rparr>)"

definition openMessageCmdPageDown :: "int \<Rightarrow> session \<Rightarrow> error + session" where
  "openMessageCmdPageDown h st =
     openMessageDraw h (st\<lparr>openMessageScrollY := openMessageScrollY st + h\<rparr>)"

definition openMessageCmdScrollDown :: "int \<Rightarrow> session \<Rightarrow> error + session" where
  "openMessageCmdScrollDown h st =
     openMessageDraw h (st\<lparr>openMessageScrollY := openMessageScrollY st + 2\<rparr>)"

definition openMessageCmdPageUp :: "int \<Rightarrow> session \<Rightarrow> error + session" where
  "openMessageCmdPageUp h st =
     openMessageDraw h (st\<lparr>openMessageScrollY := openMessageScrollY st - h\<rparr>)"

definition openMessageCmdScrollUp :: "int \<Rightarrow> session \<Rightarrow> error + session" where
  "openMessageCmdScrollUp h st =
     openMessageDraw h (st\<lparr>openMessageScrollY := openMessageScrollY st - 2\<rparr>)"

definition openMessageCmdNext :: "int \<Rightarrow> session \<Rightarrow> error + session" where
  "openMessageCmdNext h st =
     (case cmd_next (st\<lparr>openMessageScrollY := 0\<rparr>) of
        Inl e \<Rightarrow> Inl e
      | Inr st' \<Rightarrow> openMessageDraw h st')"

definition openMessageCmdMark :: "int \<Rightarrow> session \<Rightarrow> error + session" where
  "openMessageCmdMark h st =
     (case g_messages st of
        None \<Rightarrow> Inl Panic
      | Some l \<Rightarrow>
          (case current_id l of
             Inl e \<Rightarrow> Inl e
           | Inr k \<Rightarrow>
               openMessageCmdNext h
                 (st\<lparr>g_messages := Some (l\<lparr>marked := toggleMark k (marked l)\<rparr>)\<rparr>)))"

text \<open>
  A sequence of keys in the detail view, each with the height of the view at that
  moment (the terminal may be resized between two keys).
\<close>

datatype view_op = Open | PageDown | PageUp | ScrollDown | ScrollUp

fun apply_view_op :: "view_op \<Rightarrow> int \<Rightarrow> session \<Rightarrow> error + session" where
  "apply_view_op Open h st = messagesCmdOpen h st"
| "apply_view_op PageDown h st = openMessageCmdPageDown h st"
| "apply_view_op PageUp h st = openMessageCmdPageUp h st"
| "apply_view_op ScrollDown h st = openMessageCmdScrollDown h st"
| "apply_view_op ScrollUp h st = openMessageCmdScrollUp h st"

fun run_view_ops :: "(view_op \<times> int) list \<Rightarrow> session \<Rightarrow> error + session" where
  "run_view_ops [] st = Inr st"
| "run_view_ops ((x, h) # xs) st =
     (case apply_view_op x h st of Inl e \<Rightarrow> Inl e | Inr st' \<Rightarrow> run_view_ops xs st')"

text \<open>The lines of the body of the message under the cursor.\<close>

definition open_bodyLines :: "session \<Rightarrow> string list" where
  "open_bodyLines st =
     (case g_messages st of
        None \<Rightarrow> []
      | Some l \<Rightarrow> Split (getBody (messages l ! nat (current l))) (CHR 0x0A))"

subsection \<open>The batch operation: \<^verbatim>\<open>messagesCmdApply\<close>\<close>

text \<open>
  The variables the apply actions of \<^verbatim>\<open>messagesCmdApply\<close> close over: the locals
  \<^verbatim>\<open>errstr\<close>, \<^verbatim>\<open>ok\<close>, \<^verbatim>\<open>fail\<close> and the map \<^verbatim>\<open>messages.marked\<close>.
\<close>

record apply_vars =
  av_errstr :: errstr
  av_ok :: int
  av_fail :: int
  av_marked :: "string \<rightharpoonup> bool"

text \<open>
  The worker of one marked message. \<open>f\<close> is the remote mutation
  (\<^verbatim>\<open>func(string) error\<close>): \<open>None\<close> for a nil error, \<open>Some err\<close> for an error with text
  \<open>err\<close>. The worker calls \<open>f\<close> and sends one of two closures, \<open>apply_action\<close>.
\<close>

definition apply_action ::
    "string \<Rightarrow> (string \<Rightarrow> string option) \<Rightarrow> string \<Rightarrow> apply_vars \<Rightarrow> apply_vars" where
  "apply_action verb f k =
     (case f k of
        Some err \<Rightarrow> (\<lambda>v. v\<lparr>av_errstr := ErrStr verb k err, av_fail := av_fail v + 1\<rparr>)
      | None \<Rightarrow> (\<lambda>v. v\<lparr>av_marked := (av_marked v)(k := None), av_ok := av_ok v + 1\<rparr>))"

definition apply_worker ::
    "string \<Rightarrow> (string \<Rightarrow> string option) \<Rightarrow> string \<Rightarrow> apply_vars chan" where
  "apply_worker verb f k = Sends (apply_action verb f k)"

definition apply_parallel ::
    "string \<Rightarrow> (string \<Rightarrow> string option) \<Rightarrow> messageList \<Rightarrow> apply_vars parallel" where
  "apply_parallel verb f l =
     foldl (\<lambda>p m. if \<not> isMarked (marked l) (MsgId m) then p
                   else add p (apply_worker verb f (MsgId m)))
       parallel_empty (messages l)"

text \<open>
  \<^verbatim>\<open>messagesCmdApply\<close> up to the status line, before its final refresh. The first
  status text (\<open>StatusWait verb\<close>) is overwritten before the function returns.
\<close>

definition messagesCmdApply_batch ::
    "string \<Rightarrow> (string \<Rightarrow> string option) \<Rightarrow> session \<Rightarrow> error + session" where
  "messagesCmdApply_batch verb f st =
     (case g_messages st of
        None \<Rightarrow> Inl Panic
      | Some l \<Rightarrow>
          (case run (apply_parallel verb f l)
                  \<lparr>av_errstr = NoErrStr, av_ok = 0, av_fail = 0, av_marked = marked l\<rparr> of
             Inl e \<Rightarrow> Inl e
           | Inr v \<Rightarrow>
               if av_fail v > 0 then
                 Inr (st\<lparr>g_messages := Some (l\<lparr>marked := av_marked v\<rparr>),
                        bottomView := StatusFailed (av_ok v) verb (av_fail v) (av_errstr v)\<rparr>)
               else
                 Inr (st\<lparr>g_messages := Some (l\<lparr>marked := Map.empty\<rparr>),
                        bottomView := StatusOK verb (av_ok v)\<rparr>)))"

definition messagesCmdApply ::
    "string \<Rightarrow> (string \<Rightarrow> string option) \<Rightarrow> service \<Rightarrow> session \<Rightarrow> error + session" where
  "messagesCmdApply verb f g st =
     (case messagesCmdApply_batch verb f st of
        Inl e \<Rightarrow> Inl e
      | Inr st' \<Rightarrow> refreshMessages g st')"

text \<open>The ids a batch works on, and how many of them fail.\<close>

definition batch_ids :: "messageList \<Rightarrow> string list" where
  "batch_ids l = filter (isMarked (marked l)) (map MsgId (messages l))"

definition batch_failures :: "(string \<Rightarrow> string option) \<Rightarrow> messageList \<Rightarrow> string list" where
  "batch_failures f l = filter (\<lambda>k. f k \<noteq> None) (batch_ids l)"

subsection \<open>The goroutines of a batch, interleaved\<close>

text \<open>
  The same coordinator with its concurrency made explicit. Worker \<open>j\<close> runs its remote
  call (\<open>Computing\<close>), then blocks in the send on its unbuffered channel (\<open>Blocked\<close>)
  until \<^verbatim>\<open>run\<close> receives from that channel (\<open>Done\<close>). \<^verbatim>\<open>run\<close> receives from
  \<^verbatim>\<open>p.chans[pos]\<close> only, and applies what it received before it moves on. An
  execution is a list of events: \<open>Completes j\<close>, the result of worker \<open>j\<close> becomes
  available; \<open>Receive\<close>, \<^verbatim>\<open>run\<close> takes the action of the channel it waits on and calls
  it. \<open>cfg_available\<close> and \<open>cfg_applied\<close> log the workers in the order of the two
  kinds of event.
\<close>

datatype wstate = Computing | Blocked | Done

record 's config =
  cfg_workers :: "wstate list"
  cfg_pos :: nat
  cfg_store :: 's
  cfg_available :: "nat list"
  cfg_applied :: "nat list"

datatype event = Completes nat | Receive

definition init_config :: "('s \<Rightarrow> 's) list \<Rightarrow> 's \<Rightarrow> 's config" where
  "init_config fs s =
     \<lparr>cfg_workers = replicate (length fs) Computing, cfg_pos = 0, cfg_store = s,
      cfg_available = [], cfg_applied = []\<rparr>"

fun step :: "('s \<Rightarrow> 's) list \<Rightarrow> event \<Rightarrow> 's config \<Rightarrow> 's config option" where
  "step fs (Completes j) c =
     (if j < length (cfg_workers c) \<and> cfg_workers c ! j = Computing
      then Some (c\<lparr>cfg_workers := (cfg_workers c)[j := Blocked],
                   cfg_available := cfg_available c @ [j]\<rparr>)
      else None)"
| "step fs Receive c =
     (if cfg_pos c < length (cfg_workers c) \<and> cfg_pos c < length fs
         \<and> cfg_workers c ! cfg_pos c = Blocked
      then Some (c\<lparr>cfg_workers := (cfg_workers c)[cfg_pos c := Done],
                   cfg_pos := Suc (cfg_pos c),
                   cfg_store := (fs ! cfg_pos c) (cfg_store c),
                   cfg_applied := cfg_applied c @ [cfg_pos c]\<rparr>)
      else None)"

text \<open>An execution: \<open>None\<close> when an event of the list is not enabled where it stands.\<close>

fun exec :: "('s \<Rightarrow> 's) list \<Rightarrow> event list \<Rightarrow> 's config \<Rightarrow> 's config option" where
  "exec fs [] c = Some c"
| "exec fs (e # es) c = (case step fs e c of None \<Rightarrow> None | Some c' \<Rightarrow> exec fs es c')"

text \<open>
  A way to finish from a configuration: each worker that \<^verbatim>\<open>run\<close> has not served yet
  completes, if it has not, just before \<^verbatim>\<open>run\<close> receives from it.
\<close>

definition finish_events :: "wstate list \<Rightarrow> nat \<Rightarrow> event list" where
  "finish_events ws pos =
     concat (map (\<lambda>i. (if ws ! i = Computing then [Completes i] else []) @ [Receive])
               [pos..<length ws])"

text \<open>
  The configurations an execution can reach: \<^verbatim>\<open>run\<close> has served the workers before
  \<open>cfg_pos\<close> and no other.
\<close>

definition served :: "('s \<Rightarrow> 's) list \<Rightarrow> 's config \<Rightarrow> bool" where
  "served fs c \<longleftrightarrow>
     length (cfg_workers c) = length fs \<and> cfg_pos c \<le> length fs \<and>
     list_all (\<lambda>i. cfg_workers c ! i \<noteq> Done) [cfg_pos c..<length fs]"

text \<open>
  What \<^verbatim>\<open>run\<close> has done after \<open>cfg_pos\<close> receives, started on the state \<open>s\<close>.
\<close>

definition sched_inv :: "('s \<Rightarrow> 's) list \<Rightarrow> 's \<Rightarrow> 's config \<Rightarrow> bool" where
  "sched_inv fs s c \<longleftrightarrow>
     length (cfg_workers c) = length fs \<and> cfg_pos c \<le> length fs \<and>
     cfg_applied c = [0..<cfg_pos c] \<and>
     cfg_store c = foldl (\<lambda>s f. f s) s (take (cfg_pos c) fs)"

text \<open>\<^verbatim>\<open>run\<close> has returned when it has read every channel.\<close>

definition returned :: "('s \<Rightarrow> 's) list \<Rightarrow> 's config \<Rightarrow> bool" where
  "returned fs c = (cfg_pos c = length fs)"

subsection \<open>The list row's timestamp: \<^verbatim>\<open>timestring\<close>\<close>

text \<open>
  \<^verbatim>\<open>getHeader\<close>: the value of the first header of that name, or the empty string.
\<close>

fun getHeader_list :: "(string \<times> string) list \<Rightarrow> string \<Rightarrow> string" where
  "getHeader_list [] header = []"
| "getHeader_list ((name, v) # hs) header =
     (if name = header then v else getHeader_list hs header)"

definition getHeader :: "message \<Rightarrow> string \<Rightarrow> string" where
  "getHeader m header = getHeader_list (Headers m) header"

text \<open>
  A \<^verbatim>\<open>time.Time\<close>: an instant, in nanoseconds since 1970-01-01 00:00:00 UTC, and the
  offset of its location in seconds east of UTC. The calendar fields are those of
  the proleptic Gregorian calendar at that offset, as in Go's \<^verbatim>\<open>time\<close> package;
  \<open>civil_from_days\<close> turns a day number (days since 1970-01-01) into year, month and
  day.
\<close>

record time =
  unixNano :: int
  zoneOffset :: int

definition localSeconds :: "time \<Rightarrow> int" where
  "localSeconds t = unixNano t div 1000000000 + zoneOffset t"

definition civil_from_days :: "int \<Rightarrow> int \<times> int \<times> int" where
  "civil_from_days z0 =
     (let z = z0 + 719468;
          era = z div 146097;
          doe = z - era * 146097;
          yoe = (doe - doe div 1460 + doe div 36524 - doe div 146096) div 365;
          y = yoe + era * 400;
          doy = doe - (365 * yoe + yoe div 4 - yoe div 100);
          mp = (5 * doy + 2) div 153;
          d = doy - (153 * mp + 2) div 5 + 1;
          m = (if mp < 10 then mp + 3 else mp - 9)
      in (if m \<le> 2 then y + 1 else y, m, d))"

definition Year :: "time \<Rightarrow> int" where
  "Year t = fst (civil_from_days (localSeconds t div 86400))"

definition Month :: "time \<Rightarrow> int" where
  "Month t = fst (snd (civil_from_days (localSeconds t div 86400)))"

definition Day :: "time \<Rightarrow> int" where
  "Day t = snd (snd (civil_from_days (localSeconds t div 86400)))"

definition Hour :: "time \<Rightarrow> int" where
  "Hour t = localSeconds t mod 86400 div 3600"

definition Minute :: "time \<Rightarrow> int" where
  "Minute t = localSeconds t mod 3600 div 60"

definition digit :: "int \<Rightarrow> char" where
  "digit n = ''0123456789'' ! nat (n mod 10)"

definition pad2 :: "int \<Rightarrow> string" where
  "pad2 n = [digit (n div 10), digit n]"

definition pad4 :: "int \<Rightarrow> string" where
  "pad4 n = [digit (n div 1000), digit (n div 100), digit (n div 10), digit n]"

definition shortMonthNames :: "string list" where
  "shortMonthNames = [''Jan'', ''Feb'', ''Mar'', ''Apr'', ''May'', ''Jun'',
                      ''Jul'', ''Aug'', ''Sep'', ''Oct'', ''Nov'', ''Dec'']"

text \<open>
  \<^verbatim>\<open>ts.Format\<close> for the three layouts of \<^verbatim>\<open>timestring\<close>, for the years 0 to 9999
  (the years the layouts of \<^verbatim>\<open>parseTime\<close> can read).
\<close>

definition Format_2006 :: "time \<Rightarrow> string" where
  "Format_2006 t = pad4 (Year t)"

definition Format_Jan_02 :: "time \<Rightarrow> string" where
  "Format_Jan_02 t = shortMonthNames ! nat (Month t - 1) @ '' '' @ pad2 (Day t)"

definition Format_15_04 :: "time \<Rightarrow> string" where
  "Format_15_04 t = pad2 (Hour t) @ '':'' @ pad2 (Minute t)"

text \<open>
  \<^verbatim>\<open>time.Since(ts)\<close>, in nanoseconds. Go saturates the difference at the ends of the
  64-bit range, far above the 365 days it is compared with.
\<close>

definition Since :: "time \<Rightarrow> time \<Rightarrow> int" where
  "Since now t = unixNano now - unixNano t"

text \<open>
  \<^verbatim>\<open>parseTime\<close>: \<open>Parse\<close> is \<^verbatim>\<open>time.Parse\<close> (layout, then value); the loop stops at the
  first layout that parses and otherwise returns the result of the last one.
\<close>

definition parseTime ::
    "(string \<Rightarrow> string \<Rightarrow> string + time) \<Rightarrow> string \<Rightarrow> string + time" where
  "parseTime Parse s =
     (case Parse ''Mon, 2 Jan 2006 15:04:05 -0700'' s of
        Inr t \<Rightarrow> Inr t
      | Inl err \<Rightarrow> Parse ''Mon, 02 Jan 2006 15:04:05 -0700'' s)"

text \<open>
  \<^verbatim>\<open>timestring\<close>; \<open>now\<close> is what \<^verbatim>\<open>time.Now()\<close> returns, the current instant with the
  local zone (the function reads the clock twice; the two readings are taken as
  one).
\<close>

definition timestring ::
    "(string \<Rightarrow> string \<Rightarrow> string + time) \<Rightarrow> time \<Rightarrow> message \<Rightarrow> string" where
  "timestring Parse now m =
     (case parseTime Parse (getHeader m ''Date'') of
        Inl err \<Rightarrow> ''Unknown''
      | Inr ts \<Rightarrow>
          if Since now ts > 365 * 24 * 3600 * 1000000000 then Format_2006 ts
          else if Day now \<noteq> Day ts then Format_Jan_02 ts
          else Format_15_04 ts)"

subsection \<open>The editor mode loop: \<^verbatim>\<open>runEditorMode\<close>\<close>

definition nl :: char where
  "nl = CHR 0x0A"

text \<open>
  \<^verbatim>\<open>strings.SplitN(s, "\n\n", 2)\<close> cuts at the first blank line: \<open>cut_blank s\<close> is
  \<open>Some (header, body)\<close> when the slice has two parts and \<open>None\<close> when it has one.
\<close>

fun cut_blank :: "string \<Rightarrow> (string \<times> string) option" where
  "cut_blank (a # b # cs) =
     (if a = nl \<and> b = nl then Some ([], cs)
      else map_option (\<lambda>(h, t). (a # h, t)) (cut_blank (b # cs)))"
| "cut_blank cs = None"

text \<open>
  \<^verbatim>\<open>sendHeaderRE = (?:^|\n)Mode: (\w+)(?:$|\n)\<close>. \<open>isWord\<close> is the class \<^verbatim>\<open>\w\<close>.
  \<open>match_here t\<close> matches \<^verbatim>\<open>Mode: (\w+)(?:$|\n)\<close> at the start of \<open>t\<close>: the word is
  the longest run of word characters (a shorter one would be followed by a word
  character, which is neither the end nor a line feed). \<open>FindStringSubmatch\<close> gives
  the group of the leftmost match: at the start of the text, or else after the
  first line feed where \<open>match_here\<close> succeeds. Go's function returns a slice of
  length 2 on a match and nil otherwise; the loop reads its second element only.
\<close>

definition isWord :: "char \<Rightarrow> bool" where
  "isWord c \<longleftrightarrow>
     (CHR ''0'' \<le> c \<and> c \<le> CHR ''9'') \<or> (CHR ''A'' \<le> c \<and> c \<le> CHR ''Z'') \<or>
     c = CHR ''_'' \<or> (CHR ''a'' \<le> c \<and> c \<le> CHR ''z'')"

definition match_here :: "string \<Rightarrow> string option" where
  "match_here t =
     (if take 6 t = ''Mode: '' then
        (let w = takeWhile isWord (drop 6 t); rest = dropWhile isWord (drop 6 t)
         in if w \<noteq> [] \<and> (rest = [] \<or> hd rest = nl) then Some w else None)
      else None)"

fun scan :: "string \<Rightarrow> string option" where
  "scan [] = None"
| "scan (c # cs) =
     (if c = nl then (case match_here cs of Some w \<Rightarrow> Some w | None \<Rightarrow> scan cs)
      else scan cs)"

definition FindStringSubmatch :: "string \<Rightarrow> string option" where
  "FindStringSubmatch s = (case match_here s of Some w \<Rightarrow> Some w | None \<Rightarrow> scan s)"

text \<open>\<^verbatim>\<open>strings.ToLower\<close> on ASCII text (a word of \<^verbatim>\<open>\w+\<close> is ASCII).\<close>

definition ToLower :: "string \<Rightarrow> string" where
  "ToLower s =
     map (\<lambda>c. if CHR ''A'' \<le> c \<and> c \<le> CHR ''Z''
               then char_of (of_char c + (32::nat)) else c) s"

text \<open>
  One round of the loop on the text \<open>s\<close> the editor returned: \<open>Some mode\<close> when the
  loop ends with that mode, \<open>None\<close> when it sets \<^verbatim>\<open>input = s\<close> and continues.
\<close>

definition check_mode :: "string \<Rightarrow> string option" where
  "check_mode s =
     (case cut_blank s of
        None \<Rightarrow> None
      | Some (hdr, body) \<Rightarrow>
          (case FindStringSubmatch hdr of
             None \<Rightarrow> None
           | Some w \<Rightarrow>
               (let mode = ToLower w
                in if mode = ''send'' \<or> mode = ''draft'' \<or> mode = ''abort''
                   then Some mode else None)))"

text \<open>
  \<^verbatim>\<open>runEditorMode\<close>. The user's editor is outside the program: one run of
  \<^verbatim>\<open>runEditor\<close> is a function from the seed text to an error or the text read back,
  and the loop is given the list of the runs to come. \<open>None\<close>: the list ended and
  the loop still asks for the editor (the Go loop has no bound). The result is
  \<open>Inl err\<close> for \<^verbatim>\<open>("", "", err)\<close> and \<open>Inr (mode, s)\<close> for \<^verbatim>\<open>(mode, s, nil)\<close>.
\<close>

fun runEditorMode ::
    "(string \<Rightarrow> string + string) list \<Rightarrow> string \<Rightarrow> (string + string \<times> string) option" where
  "runEditorMode [] input = None"
| "runEditorMode (ed # eds) input =
     (case ed input of
        Inl err \<Rightarrow> Some (Inl err)
      | Inr s \<Rightarrow>
          (case check_mode s of
             None \<Rightarrow> runEditorMode eds s
           | Some mode \<Rightarrow> Some (Inr (mode, s))))"

text \<open>
  \<^verbatim>\<open>messagesCmdCompose\<close>, by what it does with the remote service: \<open>Send\<close> is
  \<^verbatim>\<open>Users.Messages.Send\<close> on a raw message (\<open>None\<close>: no error).
\<close>

datatype compose_outcome =
    EditorFailed string
  | Sent string
  | SendFailed string string
  | NothingSent string

definition messagesCmdCompose ::
    "(string \<Rightarrow> string + string) list \<Rightarrow> string \<Rightarrow> (string \<Rightarrow> string option)
       \<Rightarrow> compose_outcome option" where
  "messagesCmdCompose eds signature Send =
     (case runEditorMode eds
             (''To: '' @ [nl] @ ''Subject: '' @ [nl] @ ''Mode: Send'' @ [nl, nl] @ signature) of
        None \<Rightarrow> None
      | Some (Inl err) \<Rightarrow> Some (EditorFailed err)
      | Some (Inr (mode, s)) \<Rightarrow>
          if mode = ''send'' then
            (case Send (mimeEncode s) of
               Some err \<Rightarrow> Some (SendFailed (mimeEncode s) err)
             | None \<Rightarrow> Some (Sent (mimeEncode s)))
          else Some (NothingSent mode))"

text \<open>
  A directive in a header block, as the regular expression reads: \<open>Mode: \<close> and a
  word on a line of their own.
\<close>

definition directive :: "string \<Rightarrow> string \<Rightarrow> string \<Rightarrow> string \<Rightarrow> bool" where
  "directive hdr pre w post \<longleftrightarrow>
     hdr = pre @ ''Mode: '' @ w @ post \<and> (pre = [] \<or> last pre = nl) \<and>
     w \<noteq> [] \<and> list_all isWord w \<and> (post = [] \<or> hd post = nl)"

subsection \<open>The file dialog's directory listing: \<^verbatim>\<open>readDir\<close>\<close>

text \<open>
  The fields of \<^verbatim>\<open>os.FileInfo\<close>, and the calls into the operating system:
  \<^verbatim>\<open>os.Stat\<close>, \<^verbatim>\<open>ioutil.ReadDir\<close> and \<^verbatim>\<open>path.Join\<close>.
\<close>

record FileInfo =
  Name :: string
  IsDir :: bool
  Size :: int
  ModTime :: int

record os =
  Stat :: "string \<Rightarrow> string + FileInfo"
  ReadDir :: "string \<Rightarrow> string + FileInfo list"
  Join :: "string \<Rightarrow> string \<Rightarrow> string"

text \<open>
  \<^verbatim>\<open>sortFiles.Less\<close>, on the elements rather than their indices. Go compares strings
  byte by byte, which is the lexicographic order of \<open>string\<close>.
\<close>

definition Less :: "FileInfo \<Rightarrow> FileInfo \<Rightarrow> bool" where
  "Less a b =
     (if IsDir a \<and> \<not> IsDir b then True
      else if \<not> IsDir a \<and> IsDir b then False
      else Name a < Name b)"

text \<open>
  \<^verbatim>\<open>sort.Sort\<close> promises a permutation in ascending order of \<^verbatim>\<open>Less\<close> and no more (it
  is not stable). It is modelled by insertion sort; \<open>Sort_unique\<close> below shows that
  on entries with distinct names, which the entries of a directory are, every
  algorithm that keeps the promise returns the same list.
\<close>

fun insert_file :: "FileInfo \<Rightarrow> FileInfo list \<Rightarrow> FileInfo list" where
  "insert_file x [] = [x]"
| "insert_file x (y # ys) = (if Less x y then x # y # ys else y # insert_file x ys)"

definition Sort :: "FileInfo list \<Rightarrow> FileInfo list" where
  "Sort xs = foldr insert_file xs []"

text \<open>\<^verbatim>\<open>dotDirs\<close>: the file information \<^verbatim>\<open>fi\<close> under another name.\<close>

definition dotDirs :: "string \<Rightarrow> FileInfo \<Rightarrow> FileInfo" where
  "dotDirs name fi = fi\<lparr>Name := name\<rparr>"

definition readDir :: "os \<Rightarrow> string \<Rightarrow> string + FileInfo list" where
  "readDir sys d =
     (case Stat sys (Join sys d ''.'') of
        Inl err \<Rightarrow> Inl err
      | Inr dot \<Rightarrow>
          (case Stat sys (Join sys d ''..'') of
             Inl err \<Rightarrow> Inl err
           | Inr dots \<Rightarrow>
               (case ReadDir sys d of
                  Inl err \<Rightarrow> Inl err
                | Inr files \<Rightarrow> Inr ([dotDirs ''.'' dot, dotDirs ''..'' dots] @ Sort files))))"

text \<open>The order that \<^verbatim>\<open>Less\<close> sorts by: \<open>a\<close> may stand before \<open>b\<close>.\<close>

definition le_file :: "FileInfo \<Rightarrow> FileInfo \<Rightarrow> bool" where
  "le_file a b = (\<not> Less b a)"

section \<open>Examples used by the closed instances below\<close>

definition ex_body :: string where
  "ex_body = ''one'' @ [CHR 0x0A] @ ''two'' @ [CHR 0x0A] @ ''three'' @ [CHR 0x0A] @ ''four''
             @ [CHR 0x0A] @ ''five''"

definition ex_msg :: "string \<Rightarrow> message" where
  "ex_msg k = \<lparr>MsgId = k, LabelIds = [], Headers = [], Snippet = [],
              PayloadBody = mimeEncode ex_body, Parts = []\<rparr>"

definition ex_service :: "string list \<Rightarrow> service" where
  "ex_service ks = \<lparr>Messages_List = Inr ks, Messages_Get = (\<lambda>k. Inr (ex_msg k))\<rparr>"

definition ex_list :: messageList where
  "ex_list = \<lparr>current = 2, marked = [''a'' \<mapsto> True, ''c'' \<mapsto> True], showDetails = False,
              messages = [ex_msg ''a'', ex_msg ''b'', ex_msg ''c'']\<rparr>"

definition ex_session :: session where
  "ex_session = \<lparr>g_messages = Some ex_list, openMessageScrollY = 0, bottomView = StatusNone\<rparr>"

definition ex_f :: "string \<Rightarrow> string option" where
  "ex_f k = (if k = ''c'' then Some ''quota exceeded'' else None)"

definition ex_bad_service :: service where
  "ex_bad_service = \<lparr>Messages_List = Inr [''a''], Messages_Get = (\<lambda>k. Inl ''backend error'')\<rparr>"

definition ex_ok :: "string \<Rightarrow> string option" where
  "ex_ok k = None"

definition ex_final :: "string list config" where
  "ex_final = \<lparr>cfg_workers = [Done, Done], cfg_pos = 2, cfg_store = [''first'', ''second''],
               cfg_available = [1, 0], cfg_applied = [0, 1]\<rparr>"

definition ex_file :: "string \<Rightarrow> bool \<Rightarrow> FileInfo" where
  "ex_file n d = \<lparr>Name = n, IsDir = d, Size = 0, ModTime = 0\<rparr>"

definition ex_os :: os where
  "ex_os = \<lparr>Stat = (\<lambda>p. Inr (ex_file p True)),
            ReadDir = (\<lambda>p. Inr [ex_file ''b.txt'' False, ex_file ''a.txt'' False,
                                 ex_file ''z'' True]),
            Join = (\<lambda>p q. p @ ''/'' @ q)\<rparr>"

definition ex_text_nomode :: string where
  "ex_text_nomode = ''To: x'' @ [nl] @ ''Subject: y'' @ [nl, nl] @ ''body''"

definition ex_text_abort :: string where
  "ex_text_abort = ''Mode: Abort'' @ [nl, nl] @ ''ignored''"

definition ex_text_send :: string where
  "ex_text_send = ''To: x'' @ [nl] @ ''Mode: Send'' @ [nl] @ ''Subject: y'' @ [nl, nl] @ ''body''"

definition ex_editor :: "string \<Rightarrow> string \<Rightarrow> string + string" where
  "ex_editor t input = Inr t"

definition ex_date :: string where
  "ex_date = ''Sun, 15 Feb 2015 10:30:00 +0000''"

definition ex_ts :: time where
  "ex_ts = \<lparr>unixNano = 1423996200 * 1000000000, zoneOffset = 0\<rparr>"

definition ex_now :: time where
  "ex_now = \<lparr>unixNano = 1426420800 * 1000000000, zoneOffset = 0\<rparr>"

definition ex_Parse :: "string \<Rightarrow> string \<Rightarrow> string + time" where
  "ex_Parse layout v = (if v = ex_date then Inr ex_ts else Inl ''cannot parse'')"

definition ex_dated :: message where
  "ex_dated = \<lparr>MsgId = ''m1'', LabelIds = [], Headers = [(''From'', ''a@b''), (''Date'', ex_date)],
               Snippet = [], PayloadBody = [], Parts = []\<rparr>"

definition ex_actions :: "(string list \<Rightarrow> string list) list" where
  "ex_actions = [(\<lambda>log. log @ [''first'']), (\<lambda>log. log @ [''second''])]"

section \<open>The list model\<close>

lemma next_ok: "cursor_ok l \<Longrightarrow> cursor_ok (messageList_next l)"
  by (auto simp: cursor_ok_def messageList_next_def)

lemma prev_ok: "cursor_ok l \<Longrightarrow> cursor_ok (messageList_prev l)"
  by (auto simp: cursor_ok_def messageList_prev_def)

lemma fixCurrent_ok: "cursor_ok (fixCurrent l)"
  by (auto simp: cursor_ok_def fixCurrent_def Let_def)

lemma fixCurrent_marked: "marked (fixCurrent l) = marked l"
  by (simp add: fixCurrent_def Let_def)

lemma fixCurrent_messages: "messages (fixCurrent l) = messages l"
  by (simp add: fixCurrent_def Let_def)

lemma refresh_ok: "refreshMessages g st = Inr st' \<Longrightarrow> session_ok st'"
  by (auto simp: refreshMessages_def session_ok_def fixCurrent_ok Let_def split: sum.splits)

lemma apply_list_op_ok:
  assumes "session_ok st" "apply_list_op x st = Inr st'"
  shows "session_ok st'"
proof (cases x)
  case (Refresh g)
  with assms show ?thesis by (simp add: refresh_ok)
next
  case MoveNext
  with assms show ?thesis
    by (auto simp: cmd_next_def session_ok_def next_ok split: option.splits)
next
  case MovePrevious
  with assms show ?thesis
    by (auto simp: cmd_prev_def session_ok_def prev_ok split: option.splits)
qed

lemma run_list_ops_ok: "session_ok st \<Longrightarrow> run_list_ops xs st = Inr st' \<Longrightarrow> session_ok st'"
proof (induction xs arbitrary: st)
  case Nil
  then show ?case by simp
next
  case (Cons x xs)
  then show ?case by (auto split: sum.splits dest: apply_list_op_ok)
qed

lemma refresh_marks:
  "refreshMessages g st = Inr st' \<Longrightarrow> g_messages st = Some l \<Longrightarrow>
   \<exists>l'. g_messages st' = Some l' \<and> marked l' = marked l"
  by (auto simp: refreshMessages_def Let_def fixCurrent_marked split: sum.splits)

subsection \<open>The coordinator as a function\<close>

lemma run_chans_Sends: "run_chans (map Sends fs) s = Inr (foldl (\<lambda>s f. f s) s fs)"
  by (induction fs arbitrary: s) auto

lemma run_chans_Inr_iff: "(\<exists>s'. run_chans cs s = Inr s') \<longleftrightarrow> Exits \<notin> set cs"
  by (induction cs s rule: run_chans.induct) auto

lemma run_chans_Inl: "run_chans cs s = Inl e \<Longrightarrow> e = Fatal"
  by (induction cs s rule: run_chans.induct) auto

lemma chans_foldl_add: "chans (foldl add p cs) = chans p @ cs"
  by (induction cs arbitrary: p) (auto simp: add_def)

lemma chans_foldl_add_map: "chans (foldl (\<lambda>p x. add p (w x)) p xs) = chans p @ map w xs"
  by (induction xs arbitrary: p) (auto simp: add_def)

lemma run_added:
  "run (foldl add parallel_empty (map Sends fs)) s = Inr (foldl (\<lambda>s f. f s) s fs)"
  by (simp add: run_def chans_foldl_add parallel_empty_def run_chans_Sends)

lemma list_eq:
  "list g =
     (case Messages_List g of
        Inl err \<Rightarrow> Inl Fatal
      | Inr res \<Rightarrow>
          run_chans (map (list_worker g) res)
            \<lparr>current = 0, marked = Map.empty, showDetails = False, messages = []\<rparr>)"
  by (simp add: list_def run_def chans_foldl_add_map parallel_empty_def split: sum.splits)

text \<open>
  C2. After any sequence of refresh, next and previous operations that the session
  survives, started in the initial state (no list yet) or in any state whose cursor is
  in range, the cursor is in range: \<open>0 \<le> current < len(messages)\<close> for a non-empty list
  and \<open>current = 0\<close> for an empty one. A refresh keeps every mark: an id marked before
  it and present in the refreshed list is marked after it.
\<close>

theorem list_model_cursor_and_marks:
  "(session_ok st \<longrightarrow> run_list_ops ops st = Inr st' \<longrightarrow> session_ok st') \<and>
   session_ok init_session \<and>
   (g_messages st = Some l \<longrightarrow> refreshMessages g st = Inr st2 \<longrightarrow>
      (\<exists>l2. g_messages st2 = Some l2 \<and> cursor_ok l2 \<and>
         (\<forall>k. isMarked (marked l) k \<and> k \<in> MsgId ` set (messages l2)
               \<longrightarrow> isMarked (marked l2) k)))"
proof (intro conjI impI)
  show "session_ok st'" if "session_ok st" "run_list_ops ops st = Inr st'"
    using that by (rule run_list_ops_ok)
  show "session_ok init_session"
    by (simp add: session_ok_def init_session_def)
  show "\<exists>l2. g_messages st2 = Some l2 \<and> cursor_ok l2 \<and>
         (\<forall>k. isMarked (marked l) k \<and> k \<in> MsgId ` set (messages l2) \<longrightarrow> isMarked (marked l2) k)"
    if "g_messages st = Some l" "refreshMessages g st = Inr st2"
  proof -
    from refresh_marks[OF that(2) that(1)] obtain l2
      where l2: "g_messages st2 = Some l2" "marked l2 = marked l" by blast
    moreover have "cursor_ok l2"
      using refresh_ok[OF that(2)] l2 by (simp add: session_ok_def)
    ultimately show ?thesis by auto
  qed
qed

lemma list_ex_service:
  "list (ex_service ks) =
     Inr \<lparr>current = 0, marked = Map.empty, showDetails = False, messages = map ex_msg ks\<rparr>"
proof -
  have w: "list_worker (ex_service ks) =
      (\<lambda>k. Sends (\<lambda>ret. ret\<lparr>messages := messages ret @ [ex_msg k]\<rparr>))"
    by (simp add: fun_eq_iff list_worker_def ex_service_def)
  have "run_chans (map (\<lambda>k. Sends (\<lambda>ret. ret\<lparr>messages := messages ret @ [ex_msg k]\<rparr>)) js) l
      = Inr (l\<lparr>messages := messages l @ map ex_msg js\<rparr>)" for l :: messageList and js
    by (induction js arbitrary: l) auto
  then show ?thesis
    unfolding list_eq w by (simp add: ex_service_def)
qed

theorem list_model_cursor_and_marks_witness:
  "run_list_ops [Refresh (ex_service [''a'', ''b'']), MoveNext, MoveNext, MovePrevious] init_session
     = Inr (init_session\<lparr>g_messages := Some \<lparr>current = 0, marked = Map.empty,
          showDetails = False, messages = [ex_msg ''a'', ex_msg ''b'']\<rparr>\<rparr>) \<and>
   session_ok (init_session\<lparr>g_messages := Some \<lparr>current = 0, marked = Map.empty,
          showDetails = False, messages = [ex_msg ''a'', ex_msg ''b'']\<rparr>\<rparr>) \<and>
   refreshMessages (ex_service [''b'', ''c'']) ex_session
     = Inr (ex_session\<lparr>g_messages := Some (ex_list\<lparr>current := 1,
          messages := [ex_msg ''b'', ex_msg ''c'']\<rparr>)\<rparr>) \<and>
   isMarked (marked ex_list) ''c'' \<and>
   isMarked (marked (ex_list\<lparr>current := 1, messages := [ex_msg ''b'', ex_msg ''c'']\<rparr>)) ''c''"
proof -
  let ?l1 = "\<lparr>current = 0, marked = Map.empty, showDetails = False,
               messages = [ex_msg ''a'', ex_msg ''b'']\<rparr>"
  let ?st1 = "init_session\<lparr>g_messages := Some ?l1\<rparr>"
  have run: "run_list_ops [Refresh (ex_service [''a'', ''b'']), MoveNext, MoveNext, MovePrevious]
      init_session = Inr ?st1"
    by (simp add: refreshMessages_def list_ex_service init_session_def fixCurrent_def
        cmd_next_def cmd_prev_def messageList_next_def messageList_prev_def)
  have ok0: "session_ok init_session"
    by (simp add: session_ok_def init_session_def)
  let ?l2 = "ex_list\<lparr>current := 1, messages := [ex_msg ''b'', ex_msg ''c'']\<rparr>"
  have refresh: "refreshMessages (ex_service [''b'', ''c'']) ex_session
      = Inr (ex_session\<lparr>g_messages := Some ?l2\<rparr>)"
    by (simp add: refreshMessages_def list_ex_service ex_session_def ex_list_def fixCurrent_def)
  have g: "g_messages ex_session = Some ex_list"
    by (simp add: ex_session_def)
  have m: "isMarked (marked ex_list) ''c''"
    by (simp add: isMarked_def ex_list_def)
  from list_model_cursor_and_marks[of init_session
      "[Refresh (ex_service [''a'', ''b'']), MoveNext, MoveNext, MovePrevious]" ?st1
      ex_list "ex_service [''b'', ''c'']" "ex_session\<lparr>g_messages := Some ?l2\<rparr>"]
  have "session_ok ?st1" and "isMarked (marked ?l2) ''c''"
    using run ok0 refresh g m by (auto simp: ex_msg_def)
  with run refresh m show ?thesis by simp
qed

section \<open>Base64\<close>

lemma length_encodeStd: "length encodeStd = 64"
  by (simp add: encodeStd_def)

lemma distinct_encodeStd: "distinct encodeStd"
  by (simp add: encodeStd_def)

lemma index_of_nth: "distinct xs \<Longrightarrow> i < length xs \<Longrightarrow> index_of xs (xs ! i) = Some i"
proof (induction xs arbitrary: i)
  case Nil
  then show ?case by simp
next
  case (Cons y ys)
  show ?case
  proof (cases i)
    case 0
    then show ?thesis by simp
  next
    case (Suc j)
    with Cons.prems have "j < length ys" "distinct ys" "ys ! j \<noteq> y"
      by auto
    with Cons.IH[of j] Suc show ?thesis by simp
  qed
qed

lemma decodeMap_enc: "decodeMap (enc i) = Some (i mod 64)"
  unfolding decodeMap_def enc_def
  by (rule index_of_nth) (simp_all add: distinct_encodeStd length_encodeStd)

lemma enc_in: "enc i \<in> set encodeStd"
  unfolding enc_def by (rule nth_mem) (simp add: length_encodeStd)

lemma enc_not_special:
  "enc i \<noteq> CHR ''=''" "enc i \<noteq> CHR ''-''" "enc i \<noteq> CHR ''_''"
  "enc i \<noteq> CHR 0x0A" "enc i \<noteq> CHR 0x0D"
  using enc_in[of i] by (auto simp: encodeStd_def)

text \<open>Four sextets taken from a number put it together again.\<close>

lemma sextets_recombine:
  fixes v :: nat
  shows "quantum_val (v div 262144) (v div 4096 mod 64) (v div 64 mod 64) (v mod 64) = v"
proof -
  define x where "x = v div 64"
  define y where "y = x div 64"
  define z where "z = y div 64"
  have e1: "v = x * 64 + v mod 64" by (simp add: x_def)
  have e2: "x = y * 64 + x mod 64" by (simp add: y_def)
  have e3: "y = z * 64 + y mod 64" by (simp add: z_def)
  have d1: "v div 4096 = y" by (simp add: y_def x_def div_mult2_eq)
  have d0: "v div 262144 = z" by (simp add: z_def y_def x_def div_mult2_eq)
  show ?thesis
    unfolding quantum_val_def d0 d1 x_def[symmetric]
    using e1 e2 e3 by linarith
qed

lemma val_small:
  fixes a b c :: nat
  assumes "a < 256" "b < 256" "c < 256"
  shows "(a * 65536 + b * 256 + c) div 262144 < 64"
  using assms by simp

lemma byte0:
  fixes a b c :: nat
  assumes "b < 256" "c < 256"
  shows "(a * 65536 + b * 256 + c) div 65536 = a"
  using assms by simp

lemma byte1:
  fixes a b c :: nat
  assumes "c < 256"
  shows "(a * 65536 + b * 256 + c) div 256 mod 256 = b mod 256"
proof -
  have "a * 65536 + b * 256 + c = (a * 256 + b) * 256 + c" by simp
  then have "(a * 65536 + b * 256 + c) div 256 = a * 256 + b"
    using assms by (simp only: div_mult_self3 div_less add_0_right)
  then show ?thesis by simp
qed

lemma byte2:
  fixes a b c :: nat
  assumes "c < 256"
  shows "(a * 65536 + b * 256 + c) mod 256 = c"
proof -
  have "a * 65536 + b * 256 + c = (a * 256 + b) * 256 + c" by simp
  then show ?thesis
    using assms by (simp only: mod_mult_self3) simp
qed

lemma char_of_eqI: "n mod 256 = of_char c \<Longrightarrow> char_of (n::nat) = c"
  by (metis char_of_mod_256 char_of_char)

lemma decode_quantum3:
  "decode (enc (v div 262144) # enc (v div 4096) # enc (v div 64) # enc v # rest) =
     (case decode rest of
        Inl e \<Rightarrow> Inl e
      | Inr bs \<Rightarrow> Inr (char_of (v div 65536) # char_of (v div 256) # char_of v # bs))"
  if "v div 262144 < 64" for v :: nat
proof -
  have "quantum_val (v div 262144 mod 64) (v div 4096 mod 64) (v div 64 mod 64) (v mod 64) = v"
    using that sextets_recombine[of v] by simp
  then show ?thesis
    by (cases "decode rest") (simp_all add: decodeMap_enc enc_not_special padChar_def)
qed

lemma decode_quantum2:
  "decode [enc (v div 262144), enc (v div 4096), enc (v div 64), padChar] =
     Inr [char_of (v div 65536), char_of (v div 256)]"
  if "v div 262144 < 64" "v mod 64 = 0" for v :: nat
proof -
  have "quantum_val (v div 262144 mod 64) (v div 4096 mod 64) (v div 64 mod 64) 0 = v"
    using that sextets_recombine[of v] by simp
  then show ?thesis
    by (simp add: decodeMap_enc enc_not_special padChar_def)
qed

lemma decode_quantum1:
  "decode [enc (v div 262144), enc (v div 4096), padChar, padChar] =
     Inr [char_of (v div 65536)]"
  if "v div 262144 < 64" "v mod 64 = 0" "v div 64 mod 64 = 0" for v :: nat
proof -
  have "quantum_val (v div 262144 mod 64) (v div 4096 mod 64) 0 0 = v"
    using that sextets_recombine[of v] by simp
  then show ?thesis
    by (simp add: decodeMap_enc enc_not_special padChar_def)
qed

lemma decode_EncodeToString: "decode (EncodeToString s) = Inr s"
proof (induction s rule: EncodeToString.induct)
  case (1 a b c rest)
  define v :: nat where "v = of_char a * 65536 + of_char b * 256 + of_char c"
  have small: "v div 262144 < 64"
    unfolding v_def by (rule val_small) simp_all
  have "char_of (v div 65536) = a"
    unfolding v_def by (rule char_of_eqI) (simp add: byte0)
  moreover have "char_of (v div 256) = b"
    unfolding v_def by (rule char_of_eqI) (simp add: byte1)
  moreover have "char_of v = c"
    unfolding v_def by (rule char_of_eqI) (simp add: byte2)
  ultimately show ?case
    using 1 decode_quantum3[OF small, of "EncodeToString rest"]
    by (simp add: Let_def v_def)
next
  case (2 a b)
  define v :: nat where "v = of_char a * 65536 + of_char b * 256 + 0"
  have small: "v div 262144 < 64"
    unfolding v_def by (rule val_small) simp_all
  have z: "v mod 64 = 0"
    unfolding v_def by simp
  have "char_of (v div 65536) = a"
    unfolding v_def by (rule char_of_eqI) (simp add: byte0)
  moreover have "char_of (v div 256) = b"
    unfolding v_def by (rule char_of_eqI) (simp add: byte1)
  ultimately show ?case
    using decode_quantum2[OF small z] by (simp add: Let_def v_def)
next
  case (3 a)
  define v :: nat where "v = of_char a * 65536 + 0 * 256 + 0"
  have small: "v div 262144 < 64"
    unfolding v_def by (rule val_small) simp_all
  have z: "v mod 64 = 0" "v div 64 mod 64 = 0"
    unfolding v_def by simp_all
  have "char_of (v div 65536) = a"
    unfolding v_def by (rule char_of_eqI) (simp add: byte0)
  then show ?case
    using decode_quantum1[OF small z] by (simp add: Let_def v_def)
next
  case 4
  then show ?case by simp
qed

lemma EncodeToString_chars: "set (EncodeToString s) \<subseteq> insert padChar (set encodeStd)"
  by (induction s rule: EncodeToString.induct) (auto simp: Let_def enc_in)

lemma EncodeToString_plain:
  assumes "c \<in> set (EncodeToString s)"
  shows "c \<noteq> CHR ''-'' \<and> c \<noteq> CHR ''_'' \<and> c \<noteq> CHR 0x0A \<and> c \<noteq> CHR 0x0D"
  using EncodeToString_chars[of s] assms by (auto simp: padChar_def encodeStd_def)

text \<open>The two substitutions of \<^verbatim>\<open>mimeDecode\<close> undo the two of \<^verbatim>\<open>mimeEncode\<close>.\<close>

lemma Replace_undone:
  "Replace (Replace (Replace (Replace (EncodeToString s) (CHR ''+'') (CHR ''-''))
       (CHR ''/'') (CHR ''_'')) (CHR ''-'') (CHR ''+'')) (CHR ''_'') (CHR ''/'')
     = EncodeToString s"
  unfolding Replace_def map_map
  by (rule map_idI) (use EncodeToString_plain[of _ s] in auto)

lemma DecodeString_EncodeToString: "DecodeString (EncodeToString s) = Inr s"
proof -
  have "filter (\<lambda>c. c \<noteq> CHR 0x0A \<and> c \<noteq> CHR 0x0D) (EncodeToString s) = EncodeToString s"
    using EncodeToString_plain[of _ s] by (simp add: filter_id_conv)
  then show ?thesis
    by (simp add: DecodeString_def decode_EncodeToString)
qed

lemma getBody_ex_msg: "getBody (ex_msg k) = ex_body"
  by (simp add: getBody_def ex_msg_def mimeDecode_def mimeEncode_def Replace_undone
      DecodeString_EncodeToString)

text \<open>
  C3. For every byte string \<open>s\<close>, decoding the URL-safe Base64 encoding of \<open>s\<close> gives
  \<open>s\<close> back without an error. (\<^verbatim>\<open>mimeEncode\<close> is standard Base64 followed by the
  substitutions of \<^verbatim>\<open>+\<close> by \<^verbatim>\<open>-\<close> and of \<^verbatim>\<open>/\<close> by \<^verbatim>\<open>_\<close>; \<^verbatim>\<open>mimeDecode\<close> reverses the
  substitutions and then decodes standard Base64: these are the definitions.)
\<close>

theorem mimeDecode_mimeEncode:
  "mimeDecode (mimeEncode s) = Inr s \<and>
   mimeEncode s =
     map (\<lambda>c. if c = CHR ''+'' then CHR ''-'' else if c = CHR ''/'' then CHR ''_'' else c)
       (EncodeToString s) \<and>
   mimeDecode t =
     DecodeString
       (map (\<lambda>c. if c = CHR ''-'' then CHR ''+'' else if c = CHR ''_'' then CHR ''/'' else c) t)"
proof (intro conjI)
  show "mimeDecode (mimeEncode s) = Inr s"
    by (simp add: mimeDecode_def mimeEncode_def Replace_undone DecodeString_EncodeToString)
  show "mimeEncode s =
     map (\<lambda>c. if c = CHR ''+'' then CHR ''-'' else if c = CHR ''/'' then CHR ''_'' else c)
       (EncodeToString s)"
    by (simp add: mimeEncode_def Replace_def)
  have "((\<lambda>c. if c = CHR ''_'' then CHR ''/'' else c) \<circ>
         (\<lambda>c. if c = CHR ''-'' then CHR ''+'' else c)) =
        (\<lambda>c. if c = CHR ''-'' then CHR ''+'' else if c = CHR ''_'' then CHR ''/'' else c)"
    by (auto simp: fun_eq_iff)
  then show "mimeDecode t =
     DecodeString
       (map (\<lambda>c. if c = CHR ''-'' then CHR ''+'' else if c = CHR ''_'' then CHR ''/'' else c) t)"
    by (simp add: mimeDecode_def Replace_def)
qed

section \<open>Marks\<close>

lemma toggleMark_twice: "isMarked (toggleMark k (toggleMark k m)) j = isMarked m j"
  by (simp add: isMarked_def toggleMark_def)

lemma toggleMark_other: "j \<noteq> k \<Longrightarrow> isMarked (toggleMark k m) j = isMarked m j"
  by (simp add: isMarked_def toggleMark_def)

lemma toggleMark_same: "isMarked (toggleMark k m) k = (\<not> isMarked m k)"
  by (simp add: isMarked_def toggleMark_def)

lemma messagesCmdMark_marks:
  assumes "messagesCmdMark st = Inr st'"
  shows "\<exists>l l' k. g_messages st = Some l \<and> g_messages st' = Some l' \<and>
           current_id l = Inr k \<and> marked l' = toggleMark k (marked l) \<and>
           messages l' = messages l"
  using assms
  by (auto simp: messagesCmdMark_def cmd_next_def messageList_next_def
      split: option.splits sum.splits if_splits)

lemma openMessageDraw_frame:
  "openMessageDraw h st = Inr st' \<Longrightarrow> g_messages st' = g_messages st"
  by (auto simp: openMessageDraw_def Let_def split: option.splits if_splits)

lemma openMessageCmdMark_marks:
  assumes "openMessageCmdMark h st = Inr st'"
  shows "\<exists>l l' k. g_messages st = Some l \<and> g_messages st' = Some l' \<and>
           current_id l = Inr k \<and> marked l' = toggleMark k (marked l) \<and>
           messages l' = messages l"
proof -
  from assms obtain l k st1 where l: "g_messages st = Some l" and k: "current_id l = Inr k"
    and st1: "cmd_next (st\<lparr>g_messages := Some (l\<lparr>marked := toggleMark k (marked l)\<rparr>),
                openMessageScrollY := 0\<rparr>) = Inr st1"
    and draw: "openMessageDraw h st1 = Inr st'"
    by (auto simp: openMessageCmdMark_def openMessageCmdNext_def split: option.splits sum.splits)
  from st1 have "g_messages st1 = Some (messageList_next (l\<lparr>marked := toggleMark k (marked l)\<rparr>))"
    by (auto simp: cmd_next_def)
  with openMessageDraw_frame[OF draw] l k show ?thesis
    by (auto simp: messageList_next_def)
qed

text \<open>
  C10. Reading the marks as Go does (\<^verbatim>\<open>marked[id]\<close>, false for an absent key): toggling
  the mark of an id twice gives every id the membership it had, toggling once flips
  the id and leaves every other id as it was, and each of the two key handlers,
  \<^verbatim>\<open>messagesCmdMark\<close> and \<^verbatim>\<open>openMessageCmdMark\<close>, does exactly one toggle, of the id
  under the cursor.
\<close>

theorem mark_toggle_involution:
  "isMarked (toggleMark k (toggleMark k m)) j = isMarked m j \<and>
   isMarked (toggleMark k m) k = (\<not> isMarked m k) \<and>
   (j \<noteq> k \<longrightarrow> isMarked (toggleMark k m) j = isMarked m j) \<and>
   (messagesCmdMark st = Inr st' \<longrightarrow>
      (\<exists>l l' i. g_messages st = Some l \<and> g_messages st' = Some l' \<and>
         current_id l = Inr i \<and> marked l' = toggleMark i (marked l))) \<and>
   (openMessageCmdMark h st = Inr st2 \<longrightarrow>
      (\<exists>l l' i. g_messages st = Some l \<and> g_messages st2 = Some l' \<and>
         current_id l = Inr i \<and> marked l' = toggleMark i (marked l)))"
proof -
  have "\<exists>l l' i. g_messages st = Some l \<and> g_messages st' = Some l' \<and>
         current_id l = Inr i \<and> marked l' = toggleMark i (marked l)"
    if "messagesCmdMark st = Inr st'"
    using messagesCmdMark_marks[OF that] by blast
  moreover have "\<exists>l l' i. g_messages st = Some l \<and> g_messages st2 = Some l' \<and>
         current_id l = Inr i \<and> marked l' = toggleMark i (marked l)"
    if "openMessageCmdMark h st = Inr st2"
    using openMessageCmdMark_marks[OF that] by blast
  ultimately show ?thesis
    by (simp add: toggleMark_twice toggleMark_other toggleMark_same)
qed

theorem mark_toggle_involution_witness:
  "isMarked (toggleMark ''c'' (toggleMark ''c'' (marked ex_list))) ''a'' \<and>
   isMarked (marked ex_list) ''a'' \<and>
   \<not> isMarked (toggleMark ''c'' (marked ex_list)) ''c'' \<and>
   isMarked (toggleMark ''c'' (marked ex_list)) ''a'' \<and>
   messagesCmdMark ex_session =
     Inr (ex_session\<lparr>g_messages := Some (ex_list\<lparr>marked := toggleMark ''c'' (marked ex_list)\<rparr>)\<rparr>) \<and>
   current_id ex_list = Inr ''c'' \<and>
   openMessageCmdMark 24 ex_session =
     Inr (ex_session\<lparr>g_messages := Some (ex_list\<lparr>marked := toggleMark ''c'' (marked ex_list)\<rparr>)\<rparr>)"
proof -
  have cur: "current_id ex_list = Inr ''c''"
    by (simp add: current_id_def ex_list_def ex_msg_def)
  have cmd: "messagesCmdMark ex_session =
     Inr (ex_session\<lparr>g_messages := Some (ex_list\<lparr>marked := toggleMark ''c'' (marked ex_list)\<rparr>)\<rparr>)"
    by (simp add: messagesCmdMark_def cur cmd_next_def messageList_next_def ex_session_def)
       (simp add: ex_list_def)
  have a: "isMarked (marked ex_list) ''a''" "isMarked (marked ex_list) ''c''"
    by (simp_all add: isMarked_def ex_list_def)
  have draw: "openMessageDraw 24 (ex_session\<lparr>g_messages :=
        Some (ex_list\<lparr>marked := toggleMark ''c'' (marked ex_list)\<rparr>)\<rparr>) =
      Inr (ex_session\<lparr>g_messages := Some (ex_list\<lparr>marked := toggleMark ''c'' (marked ex_list)\<rparr>)\<rparr>)"
    by (simp add: openMessageDraw_def ex_session_def Let_def clampScroll_def maxScroll_def)
       (simp add: ex_list_def getBody_ex_msg ex_body_def)
  have omark: "openMessageCmdMark 24 ex_session =
     Inr (ex_session\<lparr>g_messages := Some (ex_list\<lparr>marked := toggleMark ''c'' (marked ex_list)\<rparr>)\<rparr>)"
    using draw
    by (simp add: openMessageCmdMark_def cur openMessageCmdNext_def cmd_next_def
        messageList_next_def ex_session_def)
       (simp add: ex_list_def)
  from mark_toggle_involution[of "''c''" "marked ex_list" "''a''" ex_session
      "ex_session\<lparr>g_messages := Some (ex_list\<lparr>marked := toggleMark ''c'' (marked ex_list)\<rparr>)\<rparr>"
      24 "ex_session\<lparr>g_messages := Some (ex_list\<lparr>marked := toggleMark ''c'' (marked ex_list)\<rparr>)\<rparr>"]
  show ?thesis using a cmd cur omark by simp
qed

section \<open>The detail view's scroll offset\<close>

lemma clampScroll_range:
  "0 \<le> clampScroll h ls y \<and> clampScroll h ls y \<le> max 0 (maxScroll h ls)"
  by (simp add: clampScroll_def Let_def)

lemma clampScroll_0: "clampScroll h ls 0 = 0"
  by (simp add: clampScroll_def Let_def)

lemma Split_nonempty: "Split s sep \<noteq> []"
  by (induction s) (auto split: list.splits)

lemma openMessageDraw_scroll:
  assumes "openMessageDraw h st = Inr st'"
  shows "g_messages st' = g_messages st \<and> open_bodyLines st' = open_bodyLines st \<and>
         openMessageScrollY st' = clampScroll h (open_bodyLines st) (openMessageScrollY st)"
  using assms
  by (auto simp: openMessageDraw_def open_bodyLines_def Let_def split: option.splits if_splits)

lemma open_bodyLines_scroll_update [simp]:
  "open_bodyLines (st\<lparr>openMessageScrollY := y\<rparr>) = open_bodyLines st"
  by (simp add: open_bodyLines_def)

lemma apply_view_op_scroll:
  assumes "apply_view_op x h st = Inr st'"
  shows "open_bodyLines st' = open_bodyLines st \<and>
         0 \<le> openMessageScrollY st' \<and>
         openMessageScrollY st' \<le> max 0 (maxScroll h (open_bodyLines st'))"
proof -
  obtain y where "openMessageDraw h (st\<lparr>openMessageScrollY := y\<rparr>) = Inr st'"
    using assms
    by (cases x)
      (auto simp: messagesCmdOpen_def openMessageCmdPageDown_def openMessageCmdPageUp_def
        openMessageCmdScrollDown_def openMessageCmdScrollUp_def)
  from openMessageDraw_scroll[OF this] show ?thesis
    using clampScroll_range[of h "open_bodyLines st" y] by simp
qed

lemma run_view_ops_append:
  "run_view_ops (xs @ ys) st =
     (case run_view_ops xs st of Inl e \<Rightarrow> Inl e | Inr st1 \<Rightarrow> run_view_ops ys st1)"
  by (induction xs arbitrary: st) (auto split: sum.splits)

lemma messagesCmdOpen_total:
  assumes "g_messages st = Some l" "0 \<le> current l" "current l < int (length (messages l))"
  shows "messagesCmdOpen h st = Inr (st\<lparr>openMessageScrollY := 0\<rparr>)"
  using assms by (simp add: messagesCmdOpen_def openMessageDraw_def Let_def clampScroll_0)

text \<open>
  C7. After any sequence of open, page-down, page-up and line-scroll keys that the
  view survives, the scroll offset left by the last key's rendering, at the height
  \<open>h\<close> the view had then, lies between 0 and \<open>max(0, len(bodyLines) - h + 10)\<close>; opening
  a message sets the offset to 0, and opening always succeeds when the cursor is on
  a message.
\<close>

theorem scroll_offset_clamped:
  "(run_view_ops (ops @ [(x, h)]) st = Inr st' \<longrightarrow>
      0 \<le> openMessageScrollY st' \<and>
      openMessageScrollY st' \<le> max 0 (int (length (open_bodyLines st')) - h + 10)) \<and>
   (messagesCmdOpen h st = Inr st2 \<longrightarrow> openMessageScrollY st2 = 0) \<and>
   (g_messages st = Some l \<longrightarrow> 0 \<le> current l \<longrightarrow> current l < int (length (messages l)) \<longrightarrow>
      messagesCmdOpen h st = Inr (st\<lparr>openMessageScrollY := 0\<rparr>))"
proof (intro conjI impI)
  assume "run_view_ops (ops @ [(x, h)]) st = Inr st'"
  then obtain st1 where "apply_view_op x h st1 = Inr st'"
    by (auto simp: run_view_ops_append split: sum.splits)
  from apply_view_op_scroll[OF this]
  have "0 \<le> openMessageScrollY st'"
    and "openMessageScrollY st' \<le> max 0 (maxScroll h (open_bodyLines st'))"
    by blast+
  then show "0 \<le> openMessageScrollY st'"
    and "openMessageScrollY st' \<le> max 0 (int (length (open_bodyLines st')) - h + 10)"
    by (simp_all add: maxScroll_def)
next
  assume "messagesCmdOpen h st = Inr st2"
  then show "openMessageScrollY st2 = 0"
    using openMessageDraw_scroll[of h "st\<lparr>openMessageScrollY := 0\<rparr>" st2]
    by (simp add: messagesCmdOpen_def clampScroll_0)
next
  assume "g_messages st = Some l" "0 \<le> current l" "current l < int (length (messages l))"
  then show "messagesCmdOpen h st = Inr (st\<lparr>openMessageScrollY := 0\<rparr>)"
    by (rule messagesCmdOpen_total)
qed

lemma open_bodyLines_ex: "open_bodyLines (ex_session\<lparr>openMessageScrollY := y\<rparr>) =
    [''one'', ''two'', ''three'', ''four'', ''five'']"
  by (simp add: open_bodyLines_def ex_session_def ex_list_def getBody_ex_msg ex_body_def)

lemma openMessageDraw_ex:
  "openMessageDraw 12 (ex_session\<lparr>openMessageScrollY := y\<rparr>) =
     Inr (ex_session\<lparr>openMessageScrollY :=
       clampScroll 12 [''one'', ''two'', ''three'', ''four'', ''five''] y\<rparr>)"
proof -
  have "clampScroll 12 [''one'', ''two'', ''three'', ''four'', ''five''] y \<le> 5"
    using clampScroll_range[of 12 "[''one'', ''two'', ''three'', ''four'', ''five'']" y]
    by (simp add: maxScroll_def)
  then show ?thesis
    by (simp add: openMessageDraw_def ex_session_def Let_def)
       (simp add: ex_list_def getBody_ex_msg ex_body_def)
qed

theorem scroll_offset_clamped_witness:
  "run_view_ops ([(Open, 12), (ScrollDown, 12)] @ [(PageDown, 12)]) ex_session
     = Inr (ex_session\<lparr>openMessageScrollY := 3\<rparr>) \<and>
   (0::int) \<le> 3 \<and> (3::int) \<le> max 0 (int (length (open_bodyLines ex_session)) - 12 + 10) \<and>
   messagesCmdOpen 12 (ex_session\<lparr>openMessageScrollY := 3\<rparr>) = Inr ex_session \<and>
   openMessageScrollY ex_session = 0 \<and>
   g_messages ex_session = Some ex_list \<and> 0 \<le> current ex_list \<and>
   current ex_list < int (length (messages ex_list))"
proof -
  have run: "run_view_ops ([(Open, 12), (ScrollDown, 12)] @ [(PageDown, 12)]) ex_session
     = Inr (ex_session\<lparr>openMessageScrollY := 3\<rparr>)"
    using openMessageDraw_ex[of 0] openMessageDraw_ex[of 2] openMessageDraw_ex[of 14]
    by (simp add: messagesCmdOpen_def openMessageCmdScrollDown_def openMessageCmdPageDown_def
        clampScroll_def maxScroll_def)
  have opn: "messagesCmdOpen 12 (ex_session\<lparr>openMessageScrollY := 3\<rparr>) = Inr ex_session"
    using openMessageDraw_ex[of 0]
    by (simp add: messagesCmdOpen_def clampScroll_0) (simp add: ex_session_def)
  have g: "g_messages (ex_session\<lparr>openMessageScrollY := 3\<rparr>) = Some ex_list"
    "0 \<le> current ex_list" "current ex_list < int (length (messages ex_list))"
    by (simp_all add: ex_session_def ex_list_def)
  from scroll_offset_clamped[of "[(Open, 12), (ScrollDown, 12)]" PageDown 12 ex_session
      "ex_session\<lparr>openMessageScrollY := 3\<rparr>"]
    scroll_offset_clamped[of "[]" Open 12 "ex_session\<lparr>openMessageScrollY := 3\<rparr>" ex_session
      ex_session ex_list]
  show ?thesis
    using run opn g open_bodyLines_ex[of 3] open_bodyLines_ex[of 0]
    by (simp add: ex_session_def)
qed

text \<open>
  The upper bound is not the number of lines: in a view lower than 10 lines the
  clamped offset can pass the end of \<^verbatim>\<open>bodyLines\<close>, and the slice expression of
  \<^verbatim>\<open>openMessageDraw\<close> panics before anything is rendered.
\<close>

lemma small_view_panics:
  "run_view_ops [(Open, 3), (PageDown, 3), (PageDown, 3)] ex_session = Inl Panic"
proof -
  have lines: "Split (getBody (ex_msg ''c'')) (CHR 0x0A) = [''one'', ''two'', ''three'', ''four'', ''five'']"
    by (simp add: getBody_ex_msg ex_body_def)
  have draw: "openMessageDraw 3 (ex_session\<lparr>openMessageScrollY := y\<rparr>) =
      (if clampScroll 3 [''one'', ''two'', ''three'', ''four'', ''five''] y > 5 then Inl Panic
       else Inr (ex_session\<lparr>openMessageScrollY :=
              clampScroll 3 [''one'', ''two'', ''three'', ''four'', ''five''] y\<rparr>))" for y
    by (simp add: openMessageDraw_def ex_session_def Let_def)
       (simp add: ex_list_def lines)
  show ?thesis
    using draw[of 0] draw[of 3] draw[of 6]
    by (simp add: messagesCmdOpen_def openMessageCmdPageDown_def clampScroll_def maxScroll_def)
qed

section \<open>The batch operation\<close>

lemma chans_apply_parallel_aux:
  "chans (foldl (\<lambda>p m. if \<not> P (MsgId m) then p else add p (w (MsgId m))) p ms)
     = chans p @ map w (filter P (map MsgId ms))"
  by (induction ms arbitrary: p) (auto simp: add_def)

lemma chans_apply_parallel:
  "chans (apply_parallel verb f l) = map (apply_worker verb f) (batch_ids l)"
  by (simp add: apply_parallel_def batch_ids_def chans_apply_parallel_aux parallel_empty_def)

lemma run_apply_parallel:
  "run (apply_parallel verb f l) v =
     Inr (foldl (\<lambda>v k. apply_action verb f k v) v (batch_ids l))"
proof -
  have eq: "map (apply_worker verb f) ks = map Sends (map (apply_action verb f) ks)" for ks
    by (simp add: apply_worker_def)
  show ?thesis
    unfolding run_def chans_apply_parallel eq run_chans_Sends by (simp add: foldl_map)
qed

lemma batch_fold_counts:
  "av_ok (foldl (\<lambda>v k. apply_action verb f k v) v ks) =
     av_ok v + int (length (filter (\<lambda>k. f k = None) ks))"
  "av_fail (foldl (\<lambda>v k. apply_action verb f k v) v ks) =
     av_fail v + int (length (filter (\<lambda>k. f k \<noteq> None) ks))"
  by (induction ks arbitrary: v) (auto simp: apply_action_def split: option.splits)

lemma batch_fold_errstr:
  "av_errstr (foldl (\<lambda>v k. apply_action verb f k v) v ks) =
     (case filter (\<lambda>k. f k \<noteq> None) ks of
        [] \<Rightarrow> av_errstr v
      | _ \<Rightarrow> (let k = last (filter (\<lambda>k. f k \<noteq> None) ks) in ErrStr verb k (the (f k))))"
proof (induction ks arbitrary: v rule: rev_induct)
  case Nil
  then show ?case by simp
next
  case (snoc k ks)
  then show ?case
    by (auto simp: apply_action_def Let_def split: option.splits list.splits)
qed

lemma batch_fold_marked:
  "isMarked (av_marked (foldl (\<lambda>v k. apply_action verb f k v) v ks)) j =
     (isMarked (av_marked v) j \<and> \<not> (j \<in> set ks \<and> f j = None))"
  by (induction ks arbitrary: v) (auto simp: apply_action_def isMarked_def split: option.splits)

lemma length_successes:
  "int (length (filter (\<lambda>k. f k = None) ks)) =
     int (length ks) - int (length (filter (\<lambda>k. f k \<noteq> None) ks))"
  using sum_length_filter_compl[of "\<lambda>k. f k = None" ks] by simp

text \<open>The state of the batch after \<^verbatim>\<open>p.run()\<close> and the status line.\<close>

lemma batch_result:
  fixes f :: "string \<Rightarrow> string option"
  assumes "g_messages st = Some l"
  shows "messagesCmdApply_batch verb f st =
     Inr (if batch_failures f l \<noteq> []
          then st\<lparr>g_messages := Some (l\<lparr>marked := av_marked
                   (foldl (\<lambda>v k. apply_action verb f k v)
                      \<lparr>av_errstr = NoErrStr, av_ok = 0, av_fail = 0, av_marked = marked l\<rparr>
                      (batch_ids l))\<rparr>),
                 bottomView := StatusFailed
                   (int (length (batch_ids l)) - int (length (batch_failures f l))) verb
                   (int (length (batch_failures f l)))
                   (ErrStr verb (last (batch_failures f l))
                      (the (f (last (batch_failures f l)))))\<rparr>
          else st\<lparr>g_messages := Some (l\<lparr>marked := Map.empty\<rparr>),
                 bottomView := StatusOK verb (int (length (batch_ids l)))\<rparr>)"
  using assms length_successes[of f "batch_ids l"]
  by (auto simp: messagesCmdApply_batch_def run_apply_parallel batch_fold_counts
      batch_fold_errstr batch_failures_def Let_def split: list.splits)

lemma last_failure:
  assumes "batch_failures f l \<noteq> []"
  shows "last (batch_failures f l) \<in> set (batch_ids l) \<and>
         (\<exists>e. f (last (batch_failures f l)) = Some e)"
proof -
  have "last (batch_failures f l) \<in> set (batch_failures f l)"
    using assms by (rule last_in_set)
  then show ?thesis by (auto simp: batch_failures_def)
qed

lemma refresh_bottomView: "refreshMessages g st = Inr st' \<Longrightarrow> bottomView st' = bottomView st"
  by (auto simp: refreshMessages_def Let_def split: sum.splits)

lemma batch_status:
  fixes f :: "string \<Rightarrow> string option"
  assumes "g_messages st = Some l"
  shows "\<exists>st'. messagesCmdApply_batch verb f st = Inr st' \<and>
     (if batch_failures f l = []
      then bottomView st' = StatusOK verb (int (length (batch_ids l)))
      else \<exists>k e. k \<in> set (batch_ids l) \<and> f k = Some e \<and>
             bottomView st' = StatusFailed
               (int (length (batch_ids l)) - int (length (batch_failures f l))) verb
               (int (length (batch_failures f l))) (ErrStr verb k e))"
proof (cases "batch_failures f l = []")
  case True
  then show ?thesis using batch_result[OF assms, of verb f] by simp
next
  case False
  from last_failure[OF False] obtain e
    where "last (batch_failures f l) \<in> set (batch_ids l)"
      "f (last (batch_failures f l)) = Some e" by blast
  then show ?thesis using False batch_result[OF assms, of verb f] by auto
qed

lemma batch_marks:
  fixes f :: "string \<Rightarrow> string option"
  assumes "g_messages st = Some l" "messagesCmdApply_batch verb f st = Inr st'"
  shows "\<exists>l'. g_messages st' = Some l' \<and> messages l' = messages l \<and>
           (\<forall>j\<in>set (batch_ids l). isMarked (marked l') j \<longleftrightarrow> f j \<noteq> None)"
proof (cases "batch_failures f l = []")
  case True
  then have "\<forall>j\<in>set (batch_ids l). f j = None"
    by (auto simp: batch_failures_def filter_empty_conv)
  then show ?thesis
    using True assms batch_result[OF assms(1), of verb f] by (auto simp: isMarked_def)
next
  case False
  have "isMarked (marked l) j" if "j \<in> set (batch_ids l)" for j
    using that by (simp add: batch_ids_def)
  then show ?thesis
    using False assms batch_result[OF assms(1), of verb f]
    by (auto simp: batch_fold_marked)
qed

lemma list_Fatal_iff:
  "list g = Inl Fatal \<longleftrightarrow>
     (case Messages_List g of
        Inl err \<Rightarrow> True
      | Inr res \<Rightarrow> \<exists>k\<in>set res. isl (Messages_Get g k))"
proof (cases "Messages_List g")
  case (Inl err)
  then show ?thesis by (simp add: list_def)
next
  case (Inr res)
  have "list_worker g k = Exits \<longleftrightarrow> isl (Messages_Get g k)" for k
    by (cases "Messages_Get g k") (simp_all add: list_worker_def)
  then have "Exits \<in> set (map (list_worker g) res) \<longleftrightarrow> (\<exists>k\<in>set res. isl (Messages_Get g k))"
    by (metis (no_types, lifting) image_iff list.set_map)
  moreover have "run_chans cs s = Inl Fatal \<longleftrightarrow> Exits \<in> set cs" for cs and s :: messageList
    using run_chans_Inr_iff[of cs s] run_chans_Inl[of cs s]
    by (cases "run_chans cs s") auto
  ultimately show ?thesis using Inr by (simp add: list_eq)
qed

lemma list_Inl: "list g = Inl e \<Longrightarrow> e = Fatal"
  by (auto simp: list_eq split: sum.splits dest: run_chans_Inl)

lemma messagesCmdApply_Inl:
  assumes "g_messages st = Some l" "messagesCmdApply verb f g st = Inl e"
  shows "e = Fatal \<and> list g = Inl Fatal"
proof -
  from batch_status[OF assms(1), of verb f] obtain st'
    where "messagesCmdApply_batch verb f st = Inr st'" by blast
  with assms(2) have "refreshMessages g st' = Inl e"
    by (simp add: messagesCmdApply_def)
  then have "list g = Inl e"
    by (auto simp: refreshMessages_def Let_def split: sum.splits)
  then show ?thesis using list_Inl by blast
qed

text \<open>
  C1. A coordinator that was handed \<open>n\<close> workers, each of which sends its apply
  action, returns the caller's state after all \<open>n\<close> actions, each applied once.
  \<^verbatim>\<open>messagesCmdApply\<close> hands it one worker per marked message of the list (\<open>n\<close> of them);
  when \<open>k\<close> of the remote calls fail, the counters end at \<open>ok = n - k\<close> and \<open>fail = k\<close>,
  and the status line reports \<open>n - k\<close> OK and \<open>k\<close> failed with the error string of one
  of the failed calls, for \<open>k > 0\<close>, and \<open>n\<close> messages OK for \<open>k = 0\<close> (there is no
  error string then); the refresh that ends the command leaves the status line as
  it is.
\<close>

theorem fanout_applies_all_and_counts:
  fixes f :: "string \<Rightarrow> string option"
  shows
  "run (foldl add parallel_empty (map Sends fs)) s = Inr (foldl (\<lambda>s a. a s) s fs) \<and>
   chans (apply_parallel verb f l) = map (apply_worker verb f) (batch_ids l) \<and>
   (\<exists>v. run (apply_parallel verb f l)
           \<lparr>av_errstr = NoErrStr, av_ok = 0, av_fail = 0, av_marked = marked l\<rparr> = Inr v \<and>
        av_ok v = int (length (batch_ids l)) - int (length (batch_failures f l)) \<and>
        av_fail v = int (length (batch_failures f l))) \<and>
   (g_messages st = Some l \<longrightarrow>
      (\<exists>st'. messagesCmdApply_batch verb f st = Inr st' \<and>
         (if batch_failures f l = []
          then bottomView st' = StatusOK verb (int (length (batch_ids l)))
          else \<exists>k e. k \<in> set (batch_ids l) \<and> f k = Some e \<and>
                 bottomView st' = StatusFailed
                   (int (length (batch_ids l)) - int (length (batch_failures f l))) verb
                   (int (length (batch_failures f l))) (ErrStr verb k e)) \<and>
         (\<forall>st2. messagesCmdApply verb f g st = Inr st2 \<longrightarrow> bottomView st2 = bottomView st')))"
proof (intro conjI impI)
  show "run (foldl add parallel_empty (map Sends fs)) s = Inr (foldl (\<lambda>s a. a s) s fs)"
    by (rule run_added)
  show "chans (apply_parallel verb f l) = map (apply_worker verb f) (batch_ids l)"
    by (rule chans_apply_parallel)
  show "\<exists>v. run (apply_parallel verb f l)
           \<lparr>av_errstr = NoErrStr, av_ok = 0, av_fail = 0, av_marked = marked l\<rparr> = Inr v \<and>
        av_ok v = int (length (batch_ids l)) - int (length (batch_failures f l)) \<and>
        av_fail v = int (length (batch_failures f l))"
    using length_successes[of f "batch_ids l"]
    by (simp add: run_apply_parallel batch_fold_counts batch_failures_def)
next
  assume g: "g_messages st = Some l"
  from batch_status[OF g, of verb f] obtain st' where
    st': "messagesCmdApply_batch verb f st = Inr st'"
    "if batch_failures f l = []
     then bottomView st' = StatusOK verb (int (length (batch_ids l)))
     else \<exists>k e. k \<in> set (batch_ids l) \<and> f k = Some e \<and>
            bottomView st' = StatusFailed
              (int (length (batch_ids l)) - int (length (batch_failures f l))) verb
              (int (length (batch_failures f l))) (ErrStr verb k e)"
    by blast
  moreover have "bottomView st2 = bottomView st'"
    if "messagesCmdApply verb f g st = Inr st2" for st2
    using that st'(1) by (simp add: messagesCmdApply_def refresh_bottomView)
  ultimately show "\<exists>st'. messagesCmdApply_batch verb f st = Inr st' \<and>
         (if batch_failures f l = []
          then bottomView st' = StatusOK verb (int (length (batch_ids l)))
          else \<exists>k e. k \<in> set (batch_ids l) \<and> f k = Some e \<and>
                 bottomView st' = StatusFailed
                   (int (length (batch_ids l)) - int (length (batch_failures f l))) verb
                   (int (length (batch_failures f l))) (ErrStr verb k e)) \<and>
         (\<forall>st2. messagesCmdApply verb f g st = Inr st2 \<longrightarrow> bottomView st2 = bottomView st')"
    by blast
qed

lemma ex_batch_ids: "batch_ids ex_list = [''a'', ''c'']"
  by (simp add: batch_ids_def ex_list_def ex_msg_def isMarked_def)

lemma ex_batch_failures: "batch_failures ex_f ex_list = [''c'']"
  by (simp add: batch_failures_def ex_batch_ids ex_f_def)

lemma refreshMessages_ex_service:
  "\<exists>st'. refreshMessages (ex_service ks) st = Inr st'"
  by (simp add: refreshMessages_def list_ex_service Let_def)

theorem fanout_applies_all_and_counts_witness:
  "run (foldl add parallel_empty (map Sends [(\<lambda>n. n + 1), (\<lambda>n. n * 2)])) (3::nat) = Inr 8 \<and>
   g_messages ex_session = Some ex_list \<and>
   batch_ids ex_list = [''a'', ''c''] \<and> batch_failures ex_f ex_list = [''c''] \<and>
   map_sum id bottomView (messagesCmdApply_batch ''archiving'' ex_f ex_session) =
     Inr (StatusFailed 1 ''archiving'' 1 (ErrStr ''archiving'' ''c'' ''quota exceeded'')) \<and>
   map_sum id bottomView (messagesCmdApply ''archiving'' ex_f (ex_service [''c'']) ex_session) =
     Inr (StatusFailed 1 ''archiving'' 1 (ErrStr ''archiving'' ''c'' ''quota exceeded''))"
proof -
  have g: "g_messages ex_session = Some ex_list"
    by (simp add: ex_session_def)
  note inst = fanout_applies_all_and_counts[of "[(\<lambda>n. n + 1), (\<lambda>n. n * 2)]" "3::nat"
      "''archiving''" ex_f ex_list ex_session "ex_service [''c'']"]
  from inst have r: "run (foldl add parallel_empty (map Sends [(\<lambda>n. n + 1), (\<lambda>n. n * 2)])) (3::nat)
      = Inr 8"
    by simp
  from inst g obtain st' k e where st': "messagesCmdApply_batch ''archiving'' ex_f ex_session = Inr st'"
    and k: "k \<in> set (batch_ids ex_list)" "ex_f k = Some e"
    and b: "bottomView st' = StatusFailed
        (int (length (batch_ids ex_list)) - int (length (batch_failures ex_f ex_list)))
        ''archiving'' (int (length (batch_failures ex_f ex_list))) (ErrStr ''archiving'' k e)"
    and all: "\<forall>st2. messagesCmdApply ''archiving'' ex_f (ex_service [''c'']) ex_session = Inr st2
        \<longrightarrow> bottomView st2 = bottomView st'"
    by (auto simp: ex_batch_failures)
  from k have ke: "k = ''c''" "e = ''quota exceeded''"
    by (auto simp: ex_f_def split: if_splits)
  have b': "bottomView st' =
      StatusFailed 1 ''archiving'' 1 (ErrStr ''archiving'' ''c'' ''quota exceeded'')"
    using b ke by (simp add: ex_batch_ids ex_batch_failures)
  obtain st2 where st2: "messagesCmdApply ''archiving'' ex_f (ex_service [''c'']) ex_session
      = Inr st2"
    using st' refreshMessages_ex_service[of "[''c'']" st'] by (auto simp: messagesCmdApply_def)
  with all have "bottomView st2 = bottomView st'" by blast
  with r g st' st2 b' show ?thesis
    by (simp add: ex_batch_ids ex_batch_failures)
qed

text \<open>
  C5, as the code has it. In \<^verbatim>\<open>messagesCmdApply\<close> a failing remote call is reported
  through its worker's apply action: the batch itself always reaches the status
  line, which counts the failures and names one of them, and every sibling's action
  is applied all the same (after the batch a message of the batch is marked exactly
  when its own call failed). In \<^verbatim>\<open>list\<close> it is not: a failing list or get call ends the
  process (\<^verbatim>\<open>log.Fatalf\<close>), and the refresh that ends \<^verbatim>\<open>messagesCmdApply\<close> is the only
  way that command can end it.
\<close>

theorem batch_failures_contained:
  fixes f :: "string \<Rightarrow> string option"
  shows
  "(g_messages st = Some l \<longrightarrow>
      (\<exists>st' l'. messagesCmdApply_batch verb f st = Inr st' \<and> g_messages st' = Some l' \<and>
         (\<forall>j\<in>set (batch_ids l). isMarked (marked l') j \<longleftrightarrow> f j \<noteq> None) \<and>
         (if batch_failures f l = []
          then bottomView st' = StatusOK verb (int (length (batch_ids l)))
          else \<exists>k e. k \<in> set (batch_ids l) \<and> f k = Some e \<and>
                 bottomView st' = StatusFailed
                   (int (length (batch_ids l)) - int (length (batch_failures f l))) verb
                   (int (length (batch_failures f l))) (ErrStr verb k e)))) \<and>
   (list g = Inl Fatal \<longleftrightarrow>
      (case Messages_List g of
         Inl err \<Rightarrow> True
       | Inr res \<Rightarrow> \<exists>k\<in>set res. isl (Messages_Get g k))) \<and>
   (g_messages st = Some l \<longrightarrow> messagesCmdApply verb f g st = Inl e \<longrightarrow>
      e = Fatal \<and> list g = Inl Fatal)"
proof (intro conjI impI)
  assume g: "g_messages st = Some l"
  from batch_status[OF g, of verb f] obtain st' where
    st': "messagesCmdApply_batch verb f st = Inr st'"
    "if batch_failures f l = []
     then bottomView st' = StatusOK verb (int (length (batch_ids l)))
     else \<exists>k e. k \<in> set (batch_ids l) \<and> f k = Some e \<and>
            bottomView st' = StatusFailed
              (int (length (batch_ids l)) - int (length (batch_failures f l))) verb
              (int (length (batch_failures f l))) (ErrStr verb k e)"
    by blast
  from batch_marks[OF g st'(1)] obtain l' where
    "g_messages st' = Some l'"
    "\<forall>j\<in>set (batch_ids l). isMarked (marked l') j \<longleftrightarrow> f j \<noteq> None"
    by blast
  with st' show "\<exists>st' l'. messagesCmdApply_batch verb f st = Inr st' \<and> g_messages st' = Some l' \<and>
         (\<forall>j\<in>set (batch_ids l). isMarked (marked l') j \<longleftrightarrow> f j \<noteq> None) \<and>
         (if batch_failures f l = []
          then bottomView st' = StatusOK verb (int (length (batch_ids l)))
          else \<exists>k e. k \<in> set (batch_ids l) \<and> f k = Some e \<and>
                 bottomView st' = StatusFailed
                   (int (length (batch_ids l)) - int (length (batch_failures f l))) verb
                   (int (length (batch_failures f l))) (ErrStr verb k e))"
    by blast
next
  show "list g = Inl Fatal \<longleftrightarrow>
      (case Messages_List g of
         Inl err \<Rightarrow> True
       | Inr res \<Rightarrow> \<exists>k\<in>set res. isl (Messages_Get g k))"
    by (rule list_Fatal_iff)
next
  assume "g_messages st = Some l" "messagesCmdApply verb f g st = Inl e"
  from messagesCmdApply_Inl[OF this] show "e = Fatal" and "list g = Inl Fatal"
    by simp_all
qed

text \<open>
  The claim as the spec states it fails on the fetch batch of \<^verbatim>\<open>list\<close>: one failing
  get call ends the process, here in \<^verbatim>\<open>list\<close> itself and in the refresh at the end of
  a batch whose remote calls all succeeded.
\<close>

theorem list_failure_is_fatal:
  "list ex_bad_service = Inl Fatal \<and>
   messagesCmdApply ''archiving'' ex_ok ex_bad_service ex_session = Inl Fatal"
proof -
  have l: "list ex_bad_service = Inl Fatal"
    by (simp add: list_eq ex_bad_service_def list_worker_def)
  have g: "g_messages ex_session = Some ex_list"
    by (simp add: ex_session_def)
  from batch_status[OF g, of "''archiving''" ex_ok] obtain st'
    where "messagesCmdApply_batch ''archiving'' ex_ok ex_session = Inr st'" by blast
  then show ?thesis
    using l by (simp add: messagesCmdApply_def refreshMessages_def)
qed

theorem batch_failures_contained_witness:
  "g_messages ex_session = Some ex_list \<and>
   batch_ids ex_list = [''a'', ''c''] \<and> ex_f ''a'' = None \<and> ex_f ''c'' \<noteq> None \<and>
   map_sum id (\<lambda>st'. map_option (\<lambda>l'. map (isMarked (marked l')) [''a'', ''c'']) (g_messages st'))
     (messagesCmdApply_batch ''archiving'' ex_f ex_session) = Inr (Some [False, True]) \<and>
   list ex_bad_service = Inl Fatal \<and>
   Messages_List ex_bad_service = Inr [''a''] \<and> isl (Messages_Get ex_bad_service ''a'') \<and>
   messagesCmdApply ''archiving'' ex_f ex_bad_service ex_session = Inl Fatal"
proof -
  have g: "g_messages ex_session = Some ex_list"
    by (simp add: ex_session_def)
  have f: "ex_f ''a'' = None" "ex_f ''c'' \<noteq> None"
    by (simp_all add: ex_f_def)
  have bad: "Messages_List ex_bad_service = Inr [''a'']" "isl (Messages_Get ex_bad_service ''a'')"
    by (simp_all add: ex_bad_service_def)
  note inst = batch_failures_contained[of ex_session ex_list "''archiving''" ex_f
      ex_bad_service]
  from inst bad have l: "list ex_bad_service = Inl Fatal"
    by simp
  from inst g obtain st' l' where st': "messagesCmdApply_batch ''archiving'' ex_f ex_session = Inr st'"
    "g_messages st' = Some l'"
    "\<forall>j\<in>set (batch_ids ex_list). isMarked (marked l') j \<longleftrightarrow> ex_f j \<noteq> None"
    by blast
  then have m: "map (isMarked (marked l')) [''a'', ''c''] = [False, True]"
    using f by (simp add: ex_batch_ids)
  have "\<exists>e. messagesCmdApply ''archiving'' ex_f ex_bad_service ex_session = Inl e"
    using st'(1) l by (simp add: messagesCmdApply_def refreshMessages_def)
  then have "messagesCmdApply ''archiving'' ex_f ex_bad_service ex_session = Inl Fatal"
    using inst g by blast
  with g f bad l st' m show ?thesis
    by (simp add: ex_batch_ids)
qed

section \<open>The coordinator with its goroutines\<close>

lemma sched_inv_init: "sched_inv fs s (init_config fs s)"
  by (simp add: sched_inv_def init_config_def)

lemma sched_inv_step:
  assumes "sched_inv fs s c" "step fs e c = Some c'"
  shows "sched_inv fs s c'"
proof (cases e)
  case (Completes j)
  with assms show ?thesis
    by (auto simp: sched_inv_def split: if_splits)
next
  case Receive
  with assms show ?thesis
    by (auto simp: sched_inv_def take_Suc_conv_app_nth split: if_splits)
qed

lemma sched_inv_exec:
  "sched_inv fs s c \<Longrightarrow> exec fs es c = Some c' \<Longrightarrow> sched_inv fs s c'"
proof (induction es arbitrary: c)
  case Nil
  then show ?case by simp
next
  case (Cons e es)
  then show ?case
    by (auto split: option.splits dest: sched_inv_step)
qed

lemma exec_append:
  "exec fs (es @ es') c = (case exec fs es c of None \<Rightarrow> None | Some c' \<Rightarrow> exec fs es' c')"
  by (induction es arbitrary: c) (auto split: option.splits)

lemma served_init: "served fs (init_config fs s)"
  by (simp add: served_def init_config_def list_all_iff)

lemma served_step:
  assumes "served fs c" "step fs e c = Some c'"
  shows "served fs c'"
proof (cases e)
  case (Completes j)
  with assms show ?thesis
    by (auto simp: served_def list_all_iff nth_list_update split: if_splits)
next
  case Receive
  with assms show ?thesis
    by (auto simp: served_def list_all_iff nth_list_update split: if_splits)
qed

lemma served_exec: "served fs c \<Longrightarrow> exec fs es c = Some c' \<Longrightarrow> served fs c'"
proof (induction es arbitrary: c)
  case Nil
  then show ?case by simp
next
  case (Cons e es)
  then show ?case
    by (auto split: option.splits dest: served_step)
qed

lemma finish_events_step:
  assumes "pos < length ws"
  shows "finish_events ws pos =
     (if ws ! pos = Computing then [Completes pos] else []) @ [Receive] @
     finish_events ws (Suc pos)"
  using assms by (simp add: finish_events_def upt_conv_Cons)

lemma finish_events_cong:
  assumes "length ws' = length ws" "\<And>i. pos \<le> i \<Longrightarrow> i < length ws \<Longrightarrow> ws' ! i = ws ! i"
  shows "finish_events ws' pos = finish_events ws pos"
  unfolding finish_events_def using assms by (auto intro!: arg_cong[where f = concat])

text \<open>No deadlock: from every reachable configuration \<^verbatim>\<open>run\<close> can be brought to return.\<close>

lemma finish_returns:
  assumes "served fs c"
  shows "\<exists>c'. exec fs (finish_events (cfg_workers c) (cfg_pos c)) c = Some c' \<and> returned fs c'"
  using assms
proof (induction "length fs - cfg_pos c" arbitrary: c)
  case 0
  then have "cfg_pos c = length fs" "length (cfg_workers c) = length fs"
    by (auto simp: served_def)
  then show ?case
    by (simp add: finish_events_def returned_def)
next
  case (Suc n)
  let ?i = "cfg_pos c"
  let ?ws = "cfg_workers c"
  from Suc.prems Suc.hyps(2) have len: "length ?ws = length fs" and i: "?i < length fs"
    and nd: "?ws ! ?i \<noteq> Done"
    and rest: "\<forall>j. Suc ?i \<le> j \<and> j < length fs \<longrightarrow> ?ws ! j \<noteq> Done"
    by (auto simp: served_def list_all_iff)
  define c1 where "c1 = c\<lparr>cfg_workers := ?ws[?i := Blocked],
      cfg_available := (if ?ws ! ?i = Computing then cfg_available c @ [?i]
                        else cfg_available c)\<rparr>"
  have e1: "exec fs ((if ?ws ! ?i = Computing then [Completes ?i] else []) @ [Receive]) c
      = step fs Receive c1"
  proof (cases "?ws ! ?i")
    case Computing
    then show ?thesis using len i by (simp add: c1_def)
  next
    case Blocked
    then have "?ws[?i := Blocked] = ?ws" by (metis list_update_id)
    with Blocked have "c1 = c" by (simp add: c1_def)
    then show ?thesis using Blocked by simp
  next
    case Done
    with nd show ?thesis by simp
  qed
  define c2 where "c2 = c1\<lparr>cfg_workers := (cfg_workers c1)[?i := Done], cfg_pos := Suc ?i,
      cfg_store := (fs ! ?i) (cfg_store c1), cfg_applied := cfg_applied c1 @ [?i]\<rparr>"
  have e2: "step fs Receive c1 = Some c2"
    using len i by (simp add: c1_def c2_def)
  have ws2: "cfg_workers c2 = ?ws[?i := Done]" and pos2: "cfg_pos c2 = Suc ?i"
    by (simp_all add: c2_def c1_def)
  have "served fs c2"
    using len i rest by (auto simp: served_def list_all_iff ws2 pos2)
  moreover have "n = length fs - cfg_pos c2"
    using Suc.hyps(2) pos2 by simp
  ultimately obtain c' where
    c': "exec fs (finish_events (cfg_workers c2) (cfg_pos c2)) c2 = Some c'" "returned fs c'"
    using Suc.hyps(1) by blast
  have same: "finish_events (cfg_workers c2) (cfg_pos c2) = finish_events ?ws (Suc ?i)"
    unfolding ws2 pos2 by (rule finish_events_cong) simp_all
  let ?first = "(if ?ws ! ?i = Computing then [Completes ?i] else []) @ [Receive]"
  have first: "exec fs ?first c = Some c2"
    using e1 e2 by simp
  have split: "finish_events ?ws ?i = ?first @ finish_events ?ws (Suc ?i)"
    using finish_events_step[of ?i ?ws] i len by simp
  have "exec fs (?first @ finish_events ?ws (Suc ?i)) c
      = exec fs (finish_events ?ws (Suc ?i)) c2"
    unfolding exec_append[of fs ?first "finish_events ?ws (Suc ?i)" c] first by simp
  with split have "exec fs (finish_events ?ws ?i) c = exec fs (finish_events ?ws (Suc ?i)) c2"
    by (simp only:)
  with c' same have "exec fs (finish_events ?ws ?i) c = Some c'"
    by simp
  with c'(2) show ?case by blast
qed

text \<open>
  C9, as the code has it. In every execution of a batch, whatever the order in
  which the workers' results become available, \<^verbatim>\<open>run\<close> applies the actions one after
  the other in the order in which the operations were added: after \<open>cfg_pos\<close>
  receives the log of applied actions is \<open>0, 1, ..., cfg_pos - 1\<close> and the caller's
  state is the result of applying those actions in that order. When \<^verbatim>\<open>run\<close> has
  returned, the state is the one the sequential reading of \<^verbatim>\<open>run\<close> computes, and from
  every configuration an execution reaches, \<^verbatim>\<open>run\<close> can still return.
\<close>

theorem apply_order_is_submission_order:
  "(exec fs es (init_config fs s) = Some c \<longrightarrow>
      cfg_applied c = [0..<cfg_pos c] \<and>
      cfg_store c = foldl (\<lambda>s f. f s) s (take (cfg_pos c) fs) \<and>
      (returned fs c \<longrightarrow>
         cfg_applied c = [0..<length fs] \<and>
         run (foldl add parallel_empty (map Sends fs)) s = Inr (cfg_store c)) \<and>
      (\<exists>es' c'. exec fs (es @ es') (init_config fs s) = Some c' \<and> returned fs c'))"
proof
  assume ex: "exec fs es (init_config fs s) = Some c"
  from sched_inv_exec[OF sched_inv_init ex]
  have inv: "cfg_applied c = [0..<cfg_pos c]"
    "cfg_store c = foldl (\<lambda>s f. f s) s (take (cfg_pos c) fs)"
    by (simp_all add: sched_inv_def)
  have ret: "cfg_applied c = [0..<length fs] \<and>
      run (foldl add parallel_empty (map Sends fs)) s = Inr (cfg_store c)"
    if "returned fs c"
    using that inv by (simp add: returned_def run_added)
  from finish_returns[OF served_exec[OF served_init ex]] obtain c' where
    "exec fs (finish_events (cfg_workers c) (cfg_pos c)) c = Some c'" "returned fs c'"
    by blast
  then have "exec fs (es @ finish_events (cfg_workers c) (cfg_pos c)) (init_config fs s) = Some c'
      \<and> returned fs c'"
    using ex by (simp add: exec_append)
  then have "\<exists>es' c'. exec fs (es @ es') (init_config fs s) = Some c' \<and> returned fs c'"
    by blast
  with inv ret show "cfg_applied c = [0..<cfg_pos c] \<and>
      cfg_store c = foldl (\<lambda>s f. f s) s (take (cfg_pos c) fs) \<and>
      (returned fs c \<longrightarrow>
         cfg_applied c = [0..<length fs] \<and>
         run (foldl add parallel_empty (map Sends fs)) s = Inr (cfg_store c)) \<and>
      (\<exists>es' c'. exec fs (es @ es') (init_config fs s) = Some c' \<and> returned fs c')"
    by blast
qed

text \<open>
  The claim as the spec states it fails: with two workers, the second delivering
  its result first, the actions are still applied first worker first. The order of
  application is the order of submission, not the order of availability.
\<close>

theorem apply_order_not_completion_order:
  "exec ex_actions [Completes 1, Completes 0, Receive, Receive] (init_config ex_actions [])
     = Some ex_final \<and>
   returned ex_actions ex_final \<and>
   cfg_available ex_final = [1, 0] \<and> cfg_applied ex_final = [0, 1] \<and>
   cfg_applied ex_final \<noteq> cfg_available ex_final"
  by (simp add: ex_actions_def ex_final_def init_config_def returned_def)

theorem apply_order_is_submission_order_witness:
  "exec ex_actions [Completes 1, Completes 0, Receive] (init_config ex_actions [])
     = Some \<lparr>cfg_workers = [Done, Blocked], cfg_pos = 1, cfg_store = [''first''],
             cfg_available = [1, 0], cfg_applied = [0]\<rparr> \<and>
   exec ex_actions ([Completes 1, Completes 0, Receive] @ [Receive]) (init_config ex_actions [])
     = Some \<lparr>cfg_workers = [Done, Done], cfg_pos = 2, cfg_store = [''first'', ''second''],
             cfg_available = [1, 0], cfg_applied = [0, 1]\<rparr> \<and>
   returned ex_actions \<lparr>cfg_workers = [Done, Done], cfg_pos = 2,
             cfg_store = [''first'', ''second''], cfg_available = [1, 0], cfg_applied = [0, 1]\<rparr> \<and>
   run (foldl add parallel_empty (map Sends ex_actions)) [] = Inr [''first'', ''second'']"
proof -
  let ?c1 = "\<lparr>cfg_workers = [Done, Blocked], cfg_pos = 1, cfg_store = [''first''],
             cfg_available = [1, 0], cfg_applied = [0]\<rparr>"
  let ?c2 = "\<lparr>cfg_workers = [Done, Done], cfg_pos = 2, cfg_store = [''first'', ''second''],
             cfg_available = [1, 0], cfg_applied = [0, 1]\<rparr>"
  have e1: "exec ex_actions [Completes 1, Completes 0, Receive] (init_config ex_actions [])
      = Some ?c1"
    by (simp add: ex_actions_def init_config_def)
  have e2: "exec ex_actions ([Completes 1, Completes 0, Receive] @ [Receive])
      (init_config ex_actions []) = Some ?c2"
    by (simp add: ex_actions_def init_config_def)
  have r: "returned ex_actions ?c2"
    by (simp add: returned_def ex_actions_def)
  from apply_order_is_submission_order[of ex_actions
      "[Completes 1, Completes 0, Receive] @ [Receive]" "[]" ?c2]
  have "run (foldl add parallel_empty (map Sends ex_actions)) [] = Inr [''first'', ''second'']"
    using e2 r by simp
  with e1 e2 r show ?thesis by simp
qed

section \<open>The directory listing\<close>

lemma Less_asym: "Less a b \<Longrightarrow> \<not> Less b a"
  by (auto simp: Less_def split: if_splits)

lemma le_file_trans: "le_file a b \<Longrightarrow> le_file b c \<Longrightarrow> le_file a c"
  unfolding le_file_def Less_def by (auto split: if_splits)

lemma le_file_antisym: "le_file a b \<Longrightarrow> le_file b a \<Longrightarrow> IsDir a = IsDir b \<and> Name a = Name b"
  by (auto simp: le_file_def Less_def split: if_splits)

lemma set_insert_file: "set (insert_file x ys) = insert x (set ys)"
  by (induction ys) auto

lemma mset_insert_file: "mset (insert_file x ys) = add_mset x (mset ys)"
  by (induction ys) auto

lemma sorted_insert_file:
  "sorted_wrt le_file ys \<Longrightarrow> sorted_wrt le_file (insert_file x ys)"
proof (induction ys)
  case Nil
  then show ?case by simp
next
  case (Cons y ys)
  show ?case
  proof (cases "Less x y")
    case True
    then have xy: "le_file x y" by (simp add: le_file_def Less_asym)
    moreover have "le_file x z" if "z \<in> set ys" for z
      using Cons.prems that xy le_file_trans by auto
    ultimately show ?thesis using True Cons.prems by auto
  next
    case False
    then have "le_file y x" by (simp add: le_file_def)
    with False Cons show ?thesis by (auto simp: set_insert_file)
  qed
qed

lemma mset_Sort: "mset (Sort xs) = mset xs"
  by (induction xs) (auto simp: Sort_def mset_insert_file)

lemma sorted_Sort: "sorted_wrt le_file (Sort xs)"
  by (induction xs) (auto simp: Sort_def sorted_insert_file)

lemma sorted_dirs_first:
  "sorted_wrt le_file xs \<Longrightarrow> xs = filter IsDir xs @ filter (\<lambda>x. \<not> IsDir x) xs"
proof (induction xs)
  case Nil
  then show ?case by simp
next
  case (Cons x xs)
  then have IH: "xs = filter IsDir xs @ filter (\<lambda>x. \<not> IsDir x) xs" by simp
  show ?case
  proof (cases "IsDir x")
    case True
    then show ?thesis using IH by simp
  next
    case False
    have "\<not> IsDir y" if "y \<in> set xs" for y
      using Cons.prems that False by (auto simp: le_file_def Less_def split: if_splits)
    then have "filter IsDir xs = []" by (simp add: filter_empty_conv)
    with False IH show ?thesis by simp
  qed
qed

lemma sorted_names_same_kind:
  "sorted_wrt le_file xs \<Longrightarrow> \<forall>x\<in>set xs. IsDir x = b \<Longrightarrow> sorted (map Name xs)"
proof (induction xs)
  case Nil
  then show ?case by simp
next
  case (Cons x xs)
  have "Name x \<le> Name y" if "y \<in> set xs" for y
  proof -
    have "le_file x y" "IsDir x = IsDir y" using Cons.prems that by auto
    then show ?thesis by (auto simp: le_file_def Less_def split: if_splits)
  qed
  with Cons show ?case by auto
qed

lemma Sort_groups:
  "Sort xs = filter IsDir (Sort xs) @ filter (\<lambda>x. \<not> IsDir x) (Sort xs) \<and>
   sorted (map Name (filter IsDir (Sort xs))) \<and>
   sorted (map Name (filter (\<lambda>x. \<not> IsDir x) (Sort xs)))"
proof (intro conjI)
  show "Sort xs = filter IsDir (Sort xs) @ filter (\<lambda>x. \<not> IsDir x) (Sort xs)"
    using sorted_Sort by (rule sorted_dirs_first)
  show "sorted (map Name (filter IsDir (Sort xs)))"
    by (rule sorted_names_same_kind[where b = True])
       (simp_all add: sorted_wrt_filter sorted_Sort)
  show "sorted (map Name (filter (\<lambda>x. \<not> IsDir x) (Sort xs)))"
    by (rule sorted_names_same_kind[where b = False])
       (simp_all add: sorted_wrt_filter sorted_Sort)
qed

text \<open>
  Any permutation in ascending order of \<^verbatim>\<open>Less\<close> is the list \<open>Sort\<close> returns, when the
  names are distinct: the result of \<^verbatim>\<open>sort.Sort\<close> does not depend on its algorithm.
\<close>

lemma sorted_wrt_le_file_unique:
  assumes "sorted_wrt le_file xs" "sorted_wrt le_file ys" "mset xs = mset ys"
    "distinct (map Name xs)"
  shows "xs = ys"
  using assms
proof (induction xs arbitrary: ys)
  case Nil
  then show ?case by simp
next
  case (Cons x xs)
  then obtain y ys' where ys: "ys = y # ys'"
    by (cases ys) auto
  have sets: "set (x # xs) = set (y # ys')"
    using Cons.prems(3) ys by (metis mset_eq_setD)
  have "x = y"
  proof (rule ccontr)
    assume ne: "x \<noteq> y"
    with sets have "x \<in> set ys'" "y \<in> set xs" by auto
    then have "le_file y x" "le_file x y"
      using Cons.prems(1,2) ys by auto
    then have "Name x = Name y" using le_file_antisym by blast
    with \<open>y \<in> set xs\<close> Cons.prems(4) show False by auto
  qed
  moreover from this have "mset xs = mset ys'"
    using Cons.prems(3) ys by simp
  moreover have "sorted_wrt le_file xs" "sorted_wrt le_file ys'" "distinct (map Name xs)"
    using Cons.prems ys by auto
  ultimately show ?case using Cons.IH ys by blast
qed

lemma Sort_unique:
  assumes "mset ys = mset xs" "sorted_wrt le_file ys" "distinct (map Name xs)"
  shows "ys = Sort xs"
proof -
  have "distinct (map Name ys)"
    using assms(1,3) by (metis distinct_map mset_eq_setD mset_map mset_eq_imp_distinct_iff)
  then show ?thesis
    using sorted_wrt_le_file_unique[of ys "Sort xs"] assms sorted_Sort[of xs]
    by (simp add: mset_Sort)
qed

text \<open>
  C6. When the two stat calls and the directory read succeed, \<^verbatim>\<open>readDir\<close> returns the
  entries \<open>.\<close> and \<open>..\<close> first, then a permutation of the directory's entries in which
  every directory stands before every other entry and each of the two groups is in
  ascending lexicographic order of the names; it fails only when one of the three
  calls fails.
\<close>

theorem readDir_listing:
  "(Stat sys (Join sys d ''.'') = Inr dot \<longrightarrow> Stat sys (Join sys d ''..'') = Inr dots \<longrightarrow>
    ReadDir sys d = Inr entries \<longrightarrow>
      (\<exists>files. readDir sys d = Inr files \<and>
         map Name (take 2 files) = [''.'', ''..''] \<and>
         take 2 files = [dotDirs ''.'' dot, dotDirs ''..'' dots] \<and>
         mset (drop 2 files) = mset entries \<and>
         drop 2 files = filter IsDir (drop 2 files) @ filter (\<lambda>x. \<not> IsDir x) (drop 2 files) \<and>
         sorted (map Name (filter IsDir (drop 2 files))) \<and>
         sorted (map Name (filter (\<lambda>x. \<not> IsDir x) (drop 2 files))))) \<and>
   (readDir sys d = Inr files \<longrightarrow>
      (\<exists>dot dots entries. Stat sys (Join sys d ''.'') = Inr dot \<and>
         Stat sys (Join sys d ''..'') = Inr dots \<and> ReadDir sys d = Inr entries))"
proof (intro conjI impI)
  assume "Stat sys (Join sys d ''.'') = Inr dot" "Stat sys (Join sys d ''..'') = Inr dots"
    "ReadDir sys d = Inr entries"
  then have "readDir sys d = Inr ([dotDirs ''.'' dot, dotDirs ''..'' dots] @ Sort entries)"
    by (simp add: readDir_def)
  then show "\<exists>files. readDir sys d = Inr files \<and>
         map Name (take 2 files) = [''.'', ''..''] \<and>
         take 2 files = [dotDirs ''.'' dot, dotDirs ''..'' dots] \<and>
         mset (drop 2 files) = mset entries \<and>
         drop 2 files = filter IsDir (drop 2 files) @ filter (\<lambda>x. \<not> IsDir x) (drop 2 files) \<and>
         sorted (map Name (filter IsDir (drop 2 files))) \<and>
         sorted (map Name (filter (\<lambda>x. \<not> IsDir x) (drop 2 files)))"
    using Sort_groups[of entries] by (simp add: dotDirs_def mset_Sort)
next
  assume "readDir sys d = Inr files"
  then show "\<exists>dot dots entries. Stat sys (Join sys d ''.'') = Inr dot \<and>
         Stat sys (Join sys d ''..'') = Inr dots \<and> ReadDir sys d = Inr entries"
    by (auto simp: readDir_def split: sum.splits)
qed

theorem readDir_listing_witness:
  "Stat ex_os (Join ex_os ''/home'' ''.'') = Inr (ex_file ''/home/.'' True) \<and>
   Stat ex_os (Join ex_os ''/home'' ''..'') = Inr (ex_file ''/home/..'' True) \<and>
   ReadDir ex_os ''/home'' =
     Inr [ex_file ''b.txt'' False, ex_file ''a.txt'' False, ex_file ''z'' True] \<and>
   readDir ex_os ''/home'' =
     Inr [ex_file ''.'' True, ex_file ''..'' True, ex_file ''z'' True,
          ex_file ''a.txt'' False, ex_file ''b.txt'' False] \<and>
   map_sum id (map Name) (readDir ex_os ''/home'') = Inr [''.'', ''..'', ''z'', ''a.txt'', ''b.txt'']"
proof -
  have st: "Stat ex_os (Join ex_os ''/home'' ''.'') = Inr (ex_file ''/home/.'' True)"
    "Stat ex_os (Join ex_os ''/home'' ''..'') = Inr (ex_file ''/home/..'' True)"
    "ReadDir ex_os ''/home'' =
       Inr [ex_file ''b.txt'' False, ex_file ''a.txt'' False, ex_file ''z'' True]"
    by (simp_all add: ex_os_def)
  have rd: "readDir ex_os ''/home'' =
     Inr [ex_file ''.'' True, ex_file ''..'' True, ex_file ''z'' True,
          ex_file ''a.txt'' False, ex_file ''b.txt'' False]"
    by (simp add: readDir_def st Sort_def Less_def ex_file_def dotDirs_def)
  from readDir_listing[of ex_os "''/home''" "ex_file ''/home/.'' True"
      "ex_file ''/home/..'' True"
      "[ex_file ''b.txt'' False, ex_file ''a.txt'' False, ex_file ''z'' True]"
      "[ex_file ''.'' True, ex_file ''..'' True, ex_file ''z'' True,
          ex_file ''a.txt'' False, ex_file ''b.txt'' False]"]
  show ?thesis using st rd by (simp add: ex_file_def dotDirs_def)
qed

section \<open>The editor mode loop\<close>

lemma cut_blank_Some: "cut_blank s = Some (h, t) \<Longrightarrow> s = h @ [nl, nl] @ t"
  by (induction s arbitrary: h rule: cut_blank.induct) (auto split: if_splits)

lemma cut_blank_complete: "cut_blank (h @ [nl, nl] @ t) \<noteq> None"
proof (induction h)
  case Nil
  then show ?case by simp
next
  case (Cons a h)
  then show ?case by (cases "h @ [nl, nl] @ t") auto
qed

lemma cut_blank_None_iff: "cut_blank s = None \<longleftrightarrow> \<not> (\<exists>h t. s = h @ [nl, nl] @ t)"
  using cut_blank_Some cut_blank_complete
  by (metis not_None_eq old.prod.exhaust)

lemma cut_blank_first:
  "cut_blank (h' @ [nl, nl] @ t') = Some (h, t) \<Longrightarrow> length h \<le> length h'"
proof (induction h' arbitrary: h)
  case Nil
  then show ?case by simp
next
  case (Cons a h')
  obtain b cs where bc: "h' @ [nl, nl] @ t' = b # cs"
    by (cases "h' @ [nl, nl] @ t'") auto
  show ?case
  proof (cases "a = nl \<and> b = nl")
    case True
    with Cons.prems bc show ?thesis by simp
  next
    case False
    with Cons.prems bc obtain h0 where "cut_blank (b # cs) = Some (h0, t)" "h = a # h0"
      by auto
    with Cons.IH[of h0] bc show ?thesis by simp
  qed
qed

lemma match_here_Some:
  assumes "match_here t = Some w"
  shows "directive t [] w (dropWhile isWord (drop 6 t))"
proof -
  from assms have p: "take 6 t = ''Mode: ''" and w: "w = takeWhile isWord (drop 6 t)"
    and ne: "w \<noteq> []"
    and post: "dropWhile isWord (drop 6 t) = [] \<or> hd (dropWhile isWord (drop 6 t)) = nl"
    by (auto simp: match_here_def Let_def split: if_splits)
  have "t = take 6 t @ drop 6 t" by simp
  also have "drop 6 t = w @ dropWhile isWord (drop 6 t)" by (simp add: w)
  finally have "t = ''Mode: '' @ w @ dropWhile isWord (drop 6 t)" using p by simp
  moreover have "list_all isWord w"
    unfolding w list_all_iff by (auto dest: set_takeWhileD)
  ultimately show ?thesis
    using ne post unfolding directive_def by (metis append_Nil)
qed

lemma match_here_complete:
  assumes "w \<noteq> []" "list_all isWord w" "post = [] \<or> hd post = nl"
  shows "match_here (''Mode: '' @ w @ post) = Some w"
proof -
  have nw: "\<not> isWord nl" by (simp add: isWord_def nl_def)
  have tw: "takeWhile isWord (w @ post) = w"
    using assms nw by (cases post) (auto simp: list_all_iff)
  have dw: "dropWhile isWord (w @ post) = post"
    using assms nw by (cases post) (auto simp: list_all_iff)
  show ?thesis
    using assms by (simp add: match_here_def tw dw)
qed

lemma scan_Some: "scan s = Some w \<Longrightarrow> \<exists>pre post. directive s pre w post \<and> pre \<noteq> []"
proof (induction s)
  case Nil
  then show ?case by simp
next
  case (Cons c cs)
  show ?case
  proof (cases "c = nl \<and> match_here cs = Some w")
    case True
    then have "directive cs [] w (dropWhile isWord (drop 6 cs))"
      using match_here_Some by blast
    then have "directive (c # cs) [c] w (dropWhile isWord (drop 6 cs))"
      using True by (simp add: directive_def)
    then show ?thesis by blast
  next
    case False
    with Cons.prems have "scan cs = Some w"
      by (auto split: if_splits option.splits)
    then obtain pre post where "directive cs pre w post" "pre \<noteq> []"
      using Cons.IH by blast
    then have "directive (c # cs) (c # pre) w post"
      by (simp add: directive_def)
    then show ?thesis by blast
  qed
qed

lemma scan_complete:
  assumes "match_here t \<noteq> None"
  shows "scan (pre @ nl # t) \<noteq> None"
  using assms by (induction pre) (auto split: option.splits)

lemma FindStringSubmatch_Some:
  assumes "FindStringSubmatch s = Some w"
  shows "\<exists>pre post. directive s pre w post"
proof (cases "match_here s")
  case None
  with assms have "scan s = Some w" by (simp add: FindStringSubmatch_def)
  then show ?thesis using scan_Some by blast
next
  case (Some v)
  with assms have "match_here s = Some w" by (simp add: FindStringSubmatch_def)
  then show ?thesis using match_here_Some by blast
qed

lemma FindStringSubmatch_complete:
  assumes "directive s pre w post"
  shows "FindStringSubmatch s \<noteq> None"
proof (cases "pre = []")
  case True
  with assms have "match_here s = Some w"
    using match_here_complete[of w post] by (simp add: directive_def)
  then show ?thesis by (simp add: FindStringSubmatch_def)
next
  case False
  with assms obtain p where pre: "pre = p @ [nl]"
    unfolding directive_def by (metis append_butlast_last_id)
  have "match_here (''Mode: '' @ w @ post) = Some w"
    using assms match_here_complete[of w post] by (simp add: directive_def)
  then have "scan (p @ nl # (''Mode: '' @ w @ post)) \<noteq> None"
    by (intro scan_complete) simp
  moreover have "s = p @ nl # (''Mode: '' @ w @ post)"
    using assms pre by (simp add: directive_def)
  ultimately show ?thesis
    by (simp add: FindStringSubmatch_def split: option.splits)
qed

lemma FindStringSubmatch_None_iff:
  "FindStringSubmatch s = None \<longleftrightarrow> \<not> (\<exists>pre w post. directive s pre w post)"
  using FindStringSubmatch_Some FindStringSubmatch_complete by (metis not_None_eq)

lemma check_mode_Some:
  assumes "check_mode s = Some mode"
  shows "\<exists>hdr body pre w post. cut_blank s = Some (hdr, body) \<and> s = hdr @ [nl, nl] @ body \<and>
           directive hdr pre w post \<and> FindStringSubmatch hdr = Some w \<and> mode = ToLower w \<and>
           (mode = ''send'' \<or> mode = ''draft'' \<or> mode = ''abort'')"
proof -
  from assms obtain hdr body w where c: "cut_blank s = Some (hdr, body)"
    and f: "FindStringSubmatch hdr = Some w" and m: "mode = ToLower w"
    and r: "mode = ''send'' \<or> mode = ''draft'' \<or> mode = ''abort''"
    by (auto simp: check_mode_def Let_def split: option.splits if_splits)
  from FindStringSubmatch_Some[OF f] obtain pre post where "directive hdr pre w post"
    by blast
  with c f m r cut_blank_Some[OF c] show ?thesis by blast
qed

lemma check_mode_None_iff:
  "check_mode s = None \<longleftrightarrow>
     cut_blank s = None \<or>
     (\<exists>hdr body. cut_blank s = Some (hdr, body) \<and>
        (FindStringSubmatch hdr = None \<or>
         (\<exists>w. FindStringSubmatch hdr = Some w \<and> ToLower w \<noteq> ''send'' \<and>
              ToLower w \<noteq> ''draft'' \<and> ToLower w \<noteq> ''abort'')))"
  by (auto simp: check_mode_def Let_def split: option.splits)

text \<open>
  C4. A text the editor returned ends the loop only if it has a blank line, and the
  header block before its first blank line has a line \<open>Mode: <word>\<close> whose word in
  lower case is \<open>send\<close>, \<open>draft\<close> or \<open>abort\<close>; the loop then returns that mode with the
  text. A text with no blank line, with no such line in its header block, or whose
  (first) such line has another word, makes the loop call the editor again with
  that text as the seed. With the mode \<open>abort\<close>, \<^verbatim>\<open>messagesCmdCompose\<close> sends nothing.
\<close>

theorem editor_mode_loop:
  "(check_mode s = Some mode \<longrightarrow>
      (\<exists>hdr body pre w post. s = hdr @ [nl, nl] @ body \<and>
         (\<forall>h' t'. s = h' @ [nl, nl] @ t' \<longrightarrow> length hdr \<le> length h') \<and>
         directive hdr pre w post \<and> mode = ToLower w \<and>
         (mode = ''send'' \<or> mode = ''draft'' \<or> mode = ''abort''))) \<and>
   (check_mode s = None \<longleftrightarrow>
      (\<nexists>hdr body. s = hdr @ [nl, nl] @ body) \<or>
      (\<exists>hdr body. cut_blank s = Some (hdr, body) \<and>
         ((\<nexists>pre w post. directive hdr pre w post) \<or>
          (\<exists>w. FindStringSubmatch hdr = Some w \<and> ToLower w \<noteq> ''send'' \<and>
               ToLower w \<noteq> ''draft'' \<and> ToLower w \<noteq> ''abort'')))) \<and>
   (ed input = Inr s \<longrightarrow> check_mode s = None \<longrightarrow>
      runEditorMode (ed # eds) input = runEditorMode eds s) \<and>
   (ed input = Inr s \<longrightarrow> check_mode s = Some mode \<longrightarrow>
      runEditorMode (ed # eds) input = Some (Inr (mode, s))) \<and>
   (ed (''To: '' @ [nl] @ ''Subject: '' @ [nl] @ ''Mode: Send'' @ [nl, nl] @ signature) = Inr s \<longrightarrow>
    check_mode s = Some ''abort'' \<longrightarrow>
      messagesCmdCompose (ed # eds) signature Send = Some (NothingSent ''abort''))"
proof (intro conjI impI)
  assume "check_mode s = Some mode"
  from check_mode_Some[OF this] obtain hdr body pre w post where
    c: "cut_blank s = Some (hdr, body)" and s: "s = hdr @ [nl, nl] @ body"
    and d: "directive hdr pre w post" and m: "mode = ToLower w"
      "mode = ''send'' \<or> mode = ''draft'' \<or> mode = ''abort''"
    by blast
  have "length hdr \<le> length h'" if "s = h' @ [nl, nl] @ t'" for h' t'
    using c that cut_blank_first by blast
  with s d m show "\<exists>hdr body pre w post. s = hdr @ [nl, nl] @ body \<and>
         (\<forall>h' t'. s = h' @ [nl, nl] @ t' \<longrightarrow> length hdr \<le> length h') \<and>
         directive hdr pre w post \<and> mode = ToLower w \<and>
         (mode = ''send'' \<or> mode = ''draft'' \<or> mode = ''abort'')"
    by blast
next
  show "check_mode s = None \<longleftrightarrow>
      (\<nexists>hdr body. s = hdr @ [nl, nl] @ body) \<or>
      (\<exists>hdr body. cut_blank s = Some (hdr, body) \<and>
         ((\<nexists>pre w post. directive hdr pre w post) \<or>
          (\<exists>w. FindStringSubmatch hdr = Some w \<and> ToLower w \<noteq> ''send'' \<and>
               ToLower w \<noteq> ''draft'' \<and> ToLower w \<noteq> ''abort'')))"
    unfolding check_mode_None_iff cut_blank_None_iff FindStringSubmatch_None_iff ..
next
  assume "ed input = Inr s" "check_mode s = None"
  then show "runEditorMode (ed # eds) input = runEditorMode eds s"
    by simp
next
  assume "ed input = Inr s" "check_mode s = Some mode"
  then show "runEditorMode (ed # eds) input = Some (Inr (mode, s))"
    by simp
next
  assume "ed (''To: '' @ [nl] @ ''Subject: '' @ [nl] @ ''Mode: Send'' @ [nl, nl] @ signature) = Inr s"
    "check_mode s = Some ''abort''"
  then show "messagesCmdCompose (ed # eds) signature Send = Some (NothingSent ''abort'')"
    by (simp add: messagesCmdCompose_def)
qed

lemma ex_check_nomode: "check_mode ex_text_nomode = None"
  by (simp add: check_mode_def ex_text_nomode_def FindStringSubmatch_def match_here_def nl_def)

lemma ToLower_examples: "ToLower ''Abort'' = ''abort''" "ToLower ''Send'' = ''send''"
  by code_simp+

lemma ex_check_abort: "check_mode ex_text_abort = Some ''abort''"
  by (simp add: check_mode_def ex_text_abort_def FindStringSubmatch_def match_here_def nl_def
      isWord_def ToLower_examples)

lemma ex_check_send: "check_mode ex_text_send = Some ''send''"
  by (simp add: check_mode_def ex_text_send_def FindStringSubmatch_def match_here_def nl_def
      isWord_def ToLower_examples)

theorem editor_mode_loop_witness:
  "check_mode ex_text_nomode = None \<and> check_mode ex_text_abort = Some ''abort'' \<and>
   check_mode ex_text_send = Some ''send'' \<and>
   runEditorMode [ex_editor ex_text_nomode, ex_editor ex_text_abort] ''seed'' =
     Some (Inr (''abort'', ex_text_abort)) \<and>
   runEditorMode [ex_editor ex_text_nomode, ex_editor ex_text_send] ''seed'' =
     Some (Inr (''send'', ex_text_send)) \<and>
   messagesCmdCompose [ex_editor ex_text_abort] ''Best regards'' ex_ok = Some (NothingSent ''abort'') \<and>
   directive (''To: x'' @ [nl] @ ''Mode: Send'' @ [nl] @ ''Subject: y'') (''To: x'' @ [nl])
     ''Send'' ([nl] @ ''Subject: y'')"
proof -
  note ex = ex_check_nomode ex_check_abort ex_check_send
  have e: "ex_editor t i = Inr t" for t i
    by (simp add: ex_editor_def)
  from editor_mode_loop[of ex_text_nomode "''x''" "ex_editor ex_text_nomode" "''seed''"
      "[ex_editor ex_text_abort]"]
  have r1: "runEditorMode [ex_editor ex_text_nomode, ex_editor ex_text_abort] ''seed''
      = runEditorMode [ex_editor ex_text_abort] ex_text_nomode"
    using ex e by blast
  from editor_mode_loop[of ex_text_abort "''abort''" "ex_editor ex_text_abort" ex_text_nomode
      "[]" "''Best regards''" ex_ok]
  have r2: "runEditorMode [ex_editor ex_text_abort] ex_text_nomode
      = Some (Inr (''abort'', ex_text_abort))"
    and r3: "messagesCmdCompose [ex_editor ex_text_abort] ''Best regards'' ex_ok
      = Some (NothingSent ''abort'')"
    using ex e by blast+
  have r4: "runEditorMode [ex_editor ex_text_nomode, ex_editor ex_text_send] ''seed'' =
     Some (Inr (''send'', ex_text_send))"
    by (simp add: e ex)
  have d: "directive (''To: x'' @ [nl] @ ''Mode: Send'' @ [nl] @ ''Subject: y'') (''To: x'' @ [nl])
     ''Send'' ([nl] @ ''Subject: y'')"
    by (simp add: directive_def isWord_def)
  from r1 r2 r3 r4 d ex show ?thesis by simp
qed

section \<open>The timestamp of a list row\<close>

lemma ex_parseTime: "parseTime ex_Parse (getHeader ex_dated ''Date'') = Inr ex_ts"
  by (simp add: parseTime_def getHeader_def ex_dated_def ex_Parse_def)

lemma ex_calendar:
  "Year ex_ts = 2015" "Month ex_ts = 2" "Day ex_ts = 15" "Hour ex_ts = 10" "Minute ex_ts = 30"
  "Year ex_now = 2015" "Month ex_now = 3" "Day ex_now = 15" "Hour ex_now = 12" "Minute ex_now = 0"
  by code_simp+

lemma ex_formats:
  "Format_15_04 ex_ts = ''10:30''" "Format_Jan_02 ex_ts = ''Feb 15''" "Format_2006 ex_ts = ''2015''"
  by code_simp+

lemma ex_since: "Since ex_now ex_ts = 28 * 24 * 3600 * 1000000000 + 5400 * 1000000000"
  by (simp add: Since_def ex_now_def ex_ts_def)

text \<open>
  C8 at a message dated 15 February 2015, 10:30 UTC, read on 15 March 2015, 12:00
  UTC: the date is 28 days and 90 minutes before now, on another day within the
  last year, and the row shows the time of day, \<open>10:30\<close>, where the claim says
  \<open>Feb 15\<close>. \<^verbatim>\<open>timestring\<close> compares the days of the month (\<^verbatim>\<open>Day()\<close>) only.
\<close>

theorem timestring_same_day_of_month:
  "timestring ex_Parse ex_now ex_dated = ''10:30'' \<and>
   Format_Jan_02 ex_ts = ''Feb 15'' \<and>
   (Year ex_ts, Month ex_ts, Day ex_ts) = (2015, 2, 15) \<and>
   (Year ex_now, Month ex_now, Day ex_now) = (2015, 3, 15) \<and>
   0 < Since ex_now ex_ts \<and> Since ex_now ex_ts \<le> 365 * 24 * 3600 * 1000000000"
  by (simp add: timestring_def ex_parseTime ex_calendar ex_formats ex_since)

text \<open>
  What \<^verbatim>\<open>timestring\<close> does in general, for a date header that parses: the year for a
  date more than 365 days before now, else month and day when the day of the month
  differs from today's, else hour and minute.
\<close>

lemma timestring_cases:
  assumes "parseTime Parse (getHeader m ''Date'') = Inr ts"
  shows "timestring Parse now m =
     (if Since now ts > 365 * 24 * 3600 * 1000000000 then Format_2006 ts
      else if Day now \<noteq> Day ts then Format_Jan_02 ts
      else Format_15_04 ts)"
  using assms by (simp add: timestring_def)

end
